theory Spec2Isabelle
  imports Main "HOL-Library.AList"
begin

section \<open>Data model of the dependence-graph builder (ddg.py)\<close>

text \<open>
  The builder consumes objects of the simulation engine (package simuvex): symbolic
  expressions, abstract states, references, statements, exits and runs. Their classes are
  not part of ddg.py; they are modelled by the attributes and methods ddg.py reads, with
  the fields the data model of the specification gives them.

  A symbolic expression answers \<open>is_symbolic()\<close> and \<open>any()\<close>; an abstract state answers
  \<open>sp_value()\<close>.
\<close>

datatype sym_expr = SymExpr (is_symbolic: bool) (any: int)

datatype state = State (sp_value: sym_expr)

text \<open>
  References are tagged by their class. Every reference carries \<open>stmt_idx\<close> and its data
  dependencies; memory references also carry the address and its dependencies. The
  dependency attributes are iterables, which the code turns into sets.
\<close>

datatype ref =
    SimRegRead (stmt_idx: int) (offset: int)
      (data_reg_deps: "int list") (data_tmp_deps: "int list")
  | SimRegWrite (stmt_idx: int) (offset: int)
      (data_reg_deps: "int list") (data_tmp_deps: "int list")
  | SimTmpRead (stmt_idx: int) (tmp: int)
      (data_reg_deps: "int list") (data_tmp_deps: "int list")
  | SimTmpWrite (stmt_idx: int) (tmp: int)
      (data_reg_deps: "int list") (data_tmp_deps: "int list")
  | SimMemRead (stmt_idx: int) (addr: sym_expr)
      (addr_reg_deps: "int list") (addr_tmp_deps: "int list")
      (data_reg_deps: "int list") (data_tmp_deps: "int list")
  | SimMemWrite (stmt_idx: int) (addr: sym_expr)
      (addr_reg_deps: "int list") (addr_tmp_deps: "int list")
      (data_reg_deps: "int list") (data_tmp_deps: "int list")

datatype stmt = Stmt (refs: "ref list")

datatype exit = Exit (concretize: int) (jumpkind: string) (exit_state: state)

text \<open>
  A run object is a basic block (\<open>SimIRSB\<close>, with \<open>statements\<close>) or a summary procedure
  (\<open>SimProcedure\<close>, with \<open>refs()\<close>); both have \<open>addr\<close>, \<open>exits()\<close> and \<open>initial_state\<close>.
\<close>

datatype run_obj =
    SimIRSB (run_addr: int) (statements: "stmt list") (exits: "exit list")
      (initial_state: state)
  | SimProcedure (run_addr: int) (proc_refs: "ref list") (exits: "exit list")
      (initial_state: state)

text \<open>The exceptions the code can raise.\<close>

datatype error =
    StackIsEmpty
  | AttributeError
  | IndexError
  | UnboundLocalError
  | ImportError

definition MAX_BBL_ANALYZE_TIMES :: int where
  "MAX_BBL_ANALYZE_TIMES = 40"

text \<open>Classes \<open>StackFrame\<close> and \<open>RunWrapper\<close>. A CFG node is referred to by its identity.\<close>

type_synonym run_id = nat

record StackFrame =
  initial_sp :: "int option"
  addr_to_ref :: "int \<rightharpoonup> int \<times> int"

record RunWrapper =
  run :: run_id
  new_state :: "state option"
  call_stack :: "StackFrame list"
  reanalyze_successors :: bool

section \<open>Call-stack tracker\<close>

text \<open>
  \<open>_find_frame_by_addr\<close> returns one of the frame objects of \<open>stack\<close>, which its callers
  then mutate; the model returns the position of that frame in \<open>stack\<close>.
  \<open>scan_reversed\<close> is the loop \<open>for fr in reversed(stack)\<close>: its argument is the reversed
  stack, so the frame at the head has position \<open>length frs\<close> in \<open>stack\<close>.
\<close>

fun scan_reversed :: "StackFrame list \<Rightarrow> int \<Rightarrow> nat option" where
  "scan_reversed [] a = None"
| "scan_reversed (fr # frs) a =
     (case initial_sp fr of
        None \<Rightarrow> Some (length frs)
      | Some sp \<Rightarrow> if a < sp then Some (length frs) else scan_reversed frs a)"

definition find_frame_by_addr ::
  "int \<Rightarrow> int \<Rightarrow> StackFrame list \<Rightarrow> int \<Rightarrow> error + nat" where
  "find_frame_by_addr stack_lbound stack_ubound stack a =
     (if length stack = 0 then Inl StackIsEmpty
      else if \<not> (a \<ge> stack_lbound \<and> a \<le> stack_ubound) then Inr 0
      else case scan_reversed (rev stack) a of
             Some k \<Rightarrow> Inr k
           | None \<Rightarrow> Inr 0)"

text \<open>A frame owns an address when its \<open>initial_sp\<close> is \<open>None\<close> or strictly above it.\<close>

definition owns :: "StackFrame \<Rightarrow> int \<Rightarrow> bool" where
  "owns fr a = (case initial_sp fr of None \<Rightarrow> True | Some sp \<Rightarrow> a < sp)"


section \<open>The CFG and the engine\<close>

text \<open>
  What the builder asks of its collaborators: the entry node
  (\<open>cfg.get_irsb((None, None, entry_point))\<close>), the predecessors and successors of a node,
  the object behind a node, and \<open>run.reanalyze(new_state)\<close>. \<open>ipdb_importable\<close> says whether
  the statement \<open>import ipdb\<close> succeeds.
\<close>

record cfg =
  get_irsb :: run_id
  get_predecessors :: "run_id \<Rightarrow> run_id list"
  get_successors :: "run_id \<Rightarrow> run_id list"
  node :: "run_id \<Rightarrow> run_obj"
  reanalyze :: "run_id \<Rightarrow> state option \<Rightarrow> run_obj"
  ipdb_importable :: bool

text \<open>Python's \<open>xs[n]\<close>: a negative index counts from the end, out of range raises.\<close>

definition py_index :: "'a list \<Rightarrow> int \<Rightarrow> error + 'a" where
  "py_index xs n =
     (if 0 \<le> n \<and> n < int (length xs) then Inr (xs ! nat n)
      else if n < 0 \<and> - n \<le> int (length xs) then Inr (xs ! nat (int (length xs) + n))
      else Inl IndexError)"

section \<open>Use-def tracer: \<open>_trace_source\<close>\<close>

text \<open>
  Lines 38 to 48: the dependencies the trace starts from, read off \<open>real_ref\<close>.
\<close>

definition seed_deps :: "ref \<Rightarrow> int set \<times> int set" where
  "seed_deps real_ref =
     (case real_ref of
        SimMemWrite _ _ ard atd drd dtd \<Rightarrow> (set drd \<union> set ard, set dtd \<union> set atd)
      | SimMemRead _ _ ard atd _ _ \<Rightarrow> (set ard, set atd)
      | _ \<Rightarrow> (set (data_reg_deps real_ref), set (data_tmp_deps real_ref)))"

text \<open>
  The state of the traversal: the work stack of entries
  \<open>(run, stmt_id, reg_deps, tmp_deps)\<close> (the last element is the top), the memo \<open>traced\<close>
  keyed by run address, and \<open>sources\<close>.
\<close>

record tstate =
  stack :: "(run_id \<times> int \<times> int set \<times> int set) list"
  traced :: "int \<rightharpoonup> int set"
  sources :: "(int \<times> int) set"

text \<open>
  Lines 30 to 49. \<open>real_ref\<close> is the last reference of statement \<open>init_ref.stmt_idx\<close> of
  \<open>init_run\<close>; a summary procedure has no \<open>statements\<close>.
\<close>

definition trace_init :: "cfg \<Rightarrow> run_id \<Rightarrow> ref \<Rightarrow> error + tstate" where
  "trace_init g init_run init_ref =
     (let init_stmt_id = stmt_idx init_ref in
      case node g init_run of
        SimProcedure _ _ _ _ \<Rightarrow> Inl AttributeError
      | SimIRSB _ stmts _ _ \<Rightarrow>
          (case py_index stmts init_stmt_id of
             Inl e \<Rightarrow> Inl e
           | Inr st \<Rightarrow>
               (case py_index (refs st) (- 1) of
                  Inl e \<Rightarrow> Inl e
                | Inr real_ref \<Rightarrow>
                    Inr \<lparr>stack = [(init_run, init_stmt_id,
                                    fst (seed_deps real_ref), snd (seed_deps real_ref))],
                         traced = Map.empty, sources = {}\<rparr>)))"

text \<open>
  The walk inside one run works on \<open>reg_deps\<close>, \<open>tmp_deps\<close> and the dictionary
  \<open>reg_dep_to_stmt_id\<close> (an association list). \<open>walk_ref\<close> is the body shared by lines
  69 to 77 and 82 to 90.
\<close>

type_synonym walk = "int set \<times> int set \<times> (int \<times> int) list"

definition walk_ref :: "int \<Rightarrow> ref \<Rightarrow> walk \<Rightarrow> walk" where
  "walk_ref stmt_id r w =
     (case w of (reg_deps, tmp_deps, reg_dep_to_stmt_id) \<Rightarrow>
        (case r of
           SimRegWrite _ off drd dtd \<Rightarrow>
             if off \<in> reg_deps
             then ((reg_deps - {off}) \<union> set drd, tmp_deps \<union> set dtd,
                   AList.update off stmt_id reg_dep_to_stmt_id)
             else w
         | SimTmpWrite _ t drd dtd \<Rightarrow>
             if t \<in> tmp_deps
             then (reg_deps \<union> set drd, (tmp_deps - {t}) \<union> set dtd, reg_dep_to_stmt_id)
             else w
         | _ \<Rightarrow> w))"

text \<open>The loop over \<open>stmt_ids\<close> (already reversed), lines 65 to 77.\<close>

fun walk_stmts :: "stmt list \<Rightarrow> nat list \<Rightarrow> walk \<Rightarrow> walk" where
  "walk_stmts stmts [] w = w"
| "walk_stmts stmts (k # ks) w =
     walk_stmts stmts ks
       (if length (refs (stmts ! k)) > 0 then walk_ref (int k) (last (refs (stmts ! k))) w
        else w)"

text \<open>The loop over the reversed \<open>refs()\<close> of a summary procedure, lines 81 to 90.\<close>

fun walk_refs :: "ref list \<Rightarrow> walk \<Rightarrow> walk" where
  "walk_refs [] w = w"
| "walk_refs (r # rs) w = walk_refs rs (walk_ref (- 1) r w)"

text \<open>
  Lines 57 to 90. \<open>stmt_ids\<close> is \<open>range(len(irsb.statements))\<close> for \<open>stmt_id = -1\<close> and
  \<open>range(stmt_id + 1)\<close> otherwise, reversed; its first element is the largest, so
  \<open>irsb.statements[stmt_id]\<close> raises at once when \<open>stmt_id\<close> is past the end.
\<close>

definition walk_run :: "run_obj \<Rightarrow> int \<Rightarrow> walk \<Rightarrow> error + walk" where
  "walk_run r stmt_id w =
     (case r of
        SimIRSB _ stmts _ _ \<Rightarrow>
          if stmt_id = - 1 then Inr (walk_stmts stmts (rev [0 ..< length stmts]) w)
          else if stmt_id \<ge> int (length stmts) then Inl IndexError
          else Inr (walk_stmts stmts (rev [0 ..< nat (stmt_id + 1)]) w)
      | SimProcedure _ rs _ _ \<Rightarrow> Inr (walk_refs (rev rs) w))"

text \<open>Lines 93 to 103: what one predecessor \<open>s\<close> adds to the stack.\<close>

definition enqueue_pred ::
  "cfg \<Rightarrow> (int \<rightharpoonup> int set) \<Rightarrow> int set \<Rightarrow> run_id \<Rightarrow>
     (run_id \<times> int \<times> int set \<times> int set) list" where
  "enqueue_pred g tr reg_deps s =
     (case tr (run_addr (node g s)) of
        None \<Rightarrow> [(s, - 1, reg_deps, {})]
      | Some old_reg_deps \<Rightarrow>
          if \<not> reg_deps \<subseteq> old_reg_deps then [(s, - 1, reg_deps \<union> old_reg_deps, {})]
          else [])"

text \<open>Lines 109 to 114: the sources added at the end of a use-def chain.\<close>

definition sentinel_sources :: "int set \<Rightarrow> (int \<times> int) list \<Rightarrow> (int \<times> int) set" where
  "sentinel_sources reg_deps reg_dep_to_stmt_id =
     (\<lambda>reg. (- 1 * reg, - 1)) ` Set.filter (\<lambda>reg. map_of reg_dep_to_stmt_id reg = None) reg_deps"

text \<open>
  One iteration of the \<open>while\<close> loop on a non-empty stack, lines 51 to 118.
  Line 54 stores in \<open>traced[run.addr]\<close> the set object \<open>reg_deps\<close> itself, and the walk
  then changes that object in place (\<open>remove\<close>, \<open>|=\<close>): from line 92 on, the memo of this
  run is the set as the walk left it. Every set pushed on the stack is a fresh copy.
\<close>

definition trace_step :: "cfg \<Rightarrow> tstate \<Rightarrow> error + tstate" where
  "trace_step g s =
     (case last (stack s) of (r, stmt_id, reg_deps0, tmp_deps0) \<Rightarrow>
        (case walk_run (node g r) stmt_id (reg_deps0, tmp_deps0, []) of
           Inl e \<Rightarrow> Inl e
         | Inr (reg_deps, tmp_deps, reg_dep_to_stmt_id) \<Rightarrow>
             (let a = run_addr (node g r);
                  traced' = (traced s)(a \<mapsto> reg_deps);
                  predecessors = get_predecessors g r;
                  pushed = (if reg_deps \<noteq> {}
                            then concat (map (enqueue_pred g traced' reg_deps) predecessors)
                            else []);
                  sources1 = sources s \<union> set (map (\<lambda>(reg, sid). (a, sid)) reg_dep_to_stmt_id);
                  sources2 = (if reg_deps = {} \<or> predecessors = []
                              then sources1 \<union> sentinel_sources reg_deps reg_dep_to_stmt_id
                              else sources1)
              in Inr \<lparr>stack = butlast (stack s) @ pushed, traced = traced',
                       sources = sources2\<rparr>)))"

text \<open>
  The \<open>while\<close> loop of line 50; \<open>None\<close> is a traversal that never ends.
\<close>

partial_function (option) trace_loop :: "cfg \<Rightarrow> tstate \<Rightarrow> (error + (int \<times> int) set) option" where
  "trace_loop g s =
     (if length (stack s) > 0
      then (case trace_step g s of
              Inl e \<Rightarrow> Some (Inl e)
            | Inr s' \<Rightarrow> trace_loop g s')
      else Some (Inr (sources s)))"

definition trace_source :: "cfg \<Rightarrow> run_id \<Rightarrow> ref \<Rightarrow> (error + (int \<times> int) set) option" where
  "trace_source g init_run init_ref =
     (case trace_init g init_run init_ref of
        Inl e \<Rightarrow> Some (Inl e)
      | Inr s \<Rightarrow> trace_loop g s)"

section \<open>Forward walk: \<open>construct\<close>\<close>

text \<open>
  The state of \<open>construct\<close>: its local variables \<open>run_stack\<close> (the last element is the
  top), \<open>scanned_runs\<close>, \<open>current_run_wrapper\<close>, \<open>reanalyze_successors_flag\<close> and \<open>i\<close>,
  the fields \<open>_ddg\<close> and \<open>_symbolic_mem_ops\<close> of the builder, and the warnings logged.
  \<open>var_i\<close> is \<open>None\<close> while \<open>i\<close> is unbound. \<open>scanned_runs\<close> is a \<open>defaultdict(int)\<close>: a map,
  since the code tests its keys; \<open>_ddg\<close> is a \<open>defaultdict\<close> of \<open>defaultdict\<close>s of sets whose
  keys are never tested: a function with \<open>{}\<close> for a missing key. \<open>_symbolic_mem_ops\<close> is a
  set that \<open>_solve_symbolic_mem_operations\<close> iterates: a duplicate-free list in the order
  of insertion, its pairs compared by value (two reference objects with the same contents
  have the same trace and give the same edges). \<open>current_run_wrapper\<close> and
  \<open>reanalyze_successors_flag\<close> are bound by the first iteration of the loop and never read
  before; until then the model gives them the initial wrapper and \<open>False\<close>.
\<close>

datatype warning = CannotFindTarget run_id int | StackAlreadyEmpty

record cstate =
  run_stack :: "RunWrapper list"
  scanned_runs :: "run_id \<rightharpoonup> int"
  ddg :: "int \<Rightarrow> int \<Rightarrow> (int \<times> int) set"
  symbolic_mem_ops :: "(run_id \<times> ref) list"
  current_run_wrapper :: RunWrapper
  reanalyze_successors_flag :: bool
  var_i :: "int option"
  warnings :: "warning list"

definition set_add :: "'a \<Rightarrow> 'a list \<Rightarrow> 'a list" where
  "set_add x xs = (if x \<in> set xs then xs else xs @ [x])"

definition add_edge ::
  "(int \<Rightarrow> int \<Rightarrow> (int \<times> int) set) \<Rightarrow> int \<Rightarrow> int \<Rightarrow> int \<times> int \<Rightarrow>
     (int \<Rightarrow> int \<Rightarrow> (int \<times> int) set)" where
  "add_edge d a i tpl = d(a := (d a)(i := insert tpl (d a i)))"

text \<open>Reading \<open>scanned_runs[run]\<close>: 0 for a missing key.\<close>

definition scanned_count :: "cstate \<Rightarrow> run_id \<Rightarrow> int" where
  "scanned_count s r = (case scanned_runs s r of None \<Rightarrow> 0 | Some n \<Rightarrow> n)"

text \<open>Lines 178 to 180: the stack range.\<close>

definition stack_ubound :: "cfg \<Rightarrow> int" where
  "stack_ubound g = any (sp_value (initial_state (node g (get_irsb g))))"

definition stack_lbound :: "cfg \<Rightarrow> int" where
  "stack_lbound g = stack_ubound g - 8192"

definition lookup_frame :: "cfg \<Rightarrow> cstate \<Rightarrow> int \<Rightarrow> error + nat" where
  "lookup_frame g s concrete_addr =
     find_frame_by_addr (stack_lbound g) (stack_ubound g)
       (call_stack (current_run_wrapper s)) concrete_addr"

text \<open>
  Lines 253 to 262 and 309 to 316: a concrete write of \<open>tpl\<close> at \<open>concrete_addr\<close>. The frame
  found is a frame of \<open>current_run_wrapper.call_stack\<close> and is changed in place.
\<close>

definition write_concrete :: "cfg \<Rightarrow> int \<times> int \<Rightarrow> int \<Rightarrow> cstate \<Rightarrow> error + cstate" where
  "write_concrete g tpl concrete_addr s =
     (case lookup_frame g s concrete_addr of
        Inl e \<Rightarrow> Inl e
      | Inr k \<Rightarrow>
          (let w = current_run_wrapper s;
               frame = call_stack w ! k
           in if addr_to_ref frame concrete_addr = Some tpl then Inr s
              else Inr (s\<lparr>current_run_wrapper :=
                             w\<lparr>call_stack := (call_stack w)
                                  [k := frame\<lparr>addr_to_ref :=
                                          (addr_to_ref frame)(concrete_addr \<mapsto> tpl)\<rparr>]\<rparr>,
                           reanalyze_successors_flag := True\<rparr>)))"

text \<open>Lines 246 to 266: the real reference of statement \<open>i\<close> of a basic block.\<close>

definition block_write :: "cfg \<Rightarrow> run_id \<Rightarrow> int \<Rightarrow> int \<Rightarrow> ref \<Rightarrow> cstate \<Rightarrow> error + cstate" where
  "block_write g old_irsb irsb_addr i real_ref s =
     (case real_ref of
        SimMemWrite _ a _ _ _ _ \<Rightarrow>
          if \<not> is_symbolic a then write_concrete g (irsb_addr, i) (any a) s
          else Inr (s\<lparr>symbolic_mem_ops := set_add (old_irsb, real_ref) (symbolic_mem_ops s)\<rparr>)
      | _ \<Rightarrow> Inr s)"

text \<open>
  Lines 267 to 293: the loop over the references of statement \<open>i\<close>; a resolved read ends
  it (\<open>break\<close>).
\<close>

fun block_reads :: "cfg \<Rightarrow> run_id \<Rightarrow> int \<Rightarrow> int \<Rightarrow> ref list \<Rightarrow> cstate \<Rightarrow> error + cstate" where
  "block_reads g old_irsb irsb_addr i [] s = Inr s"
| "block_reads g old_irsb irsb_addr i (r # rs) s =
     (case r of
        SimMemRead _ a _ _ _ _ \<Rightarrow>
          if \<not> is_symbolic a then
            (case lookup_frame g s (any a) of
               Inl e \<Rightarrow> Inl e
             | Inr k \<Rightarrow>
                 (case addr_to_ref (call_stack (current_run_wrapper s) ! k) (any a) of
                    Some tpl \<Rightarrow> Inr (s\<lparr>ddg := add_edge (ddg s) irsb_addr i tpl\<rparr>)
                  | None \<Rightarrow> block_reads g old_irsb irsb_addr i rs s))
          else block_reads g old_irsb irsb_addr i rs
                 (s\<lparr>symbolic_mem_ops := set_add (old_irsb, r) (symbolic_mem_ops s)\<rparr>)
      | _ \<Rightarrow> block_reads g old_irsb irsb_addr i rs s)"

text \<open>Lines 240 to 293: the body of \<open>for i in range(len(stmts))\<close>.\<close>

definition process_stmt :: "cfg \<Rightarrow> run_id \<Rightarrow> int \<Rightarrow> int \<Rightarrow> stmt \<Rightarrow> cstate \<Rightarrow> error + cstate" where
  "process_stmt g old_irsb irsb_addr i st s =
     (if length (refs st) = 0 then Inr s
      else case block_write g old_irsb irsb_addr i (last (refs st)) s of
             Inl e \<Rightarrow> Inl e
           | Inr s' \<Rightarrow> block_reads g old_irsb irsb_addr i (refs st) s')"

text \<open>The loop of line 239 over the statements from index \<open>i\<close> on; each round binds \<open>i\<close>.\<close>

fun process_stmts :: "cfg \<Rightarrow> run_id \<Rightarrow> int \<Rightarrow> nat \<Rightarrow> stmt list \<Rightarrow> cstate \<Rightarrow> error + cstate" where
  "process_stmts g old_irsb irsb_addr i [] s = Inr s"
| "process_stmts g old_irsb irsb_addr i (st # sts) s =
     (case process_stmt g old_irsb irsb_addr (int i) st (s\<lparr>var_i := Some (int i)\<rparr>) of
        Inl e \<Rightarrow> Inl e
      | Inr s' \<Rightarrow> process_stmts g old_irsb irsb_addr (Suc i) sts s')"

text \<open>
  Lines 300 to 334: the loop over the references of a summary procedure. The concrete
  write builds its tuple from the variable \<open>i\<close> of the loop of line 239; a resolved read
  ends the loop.
\<close>

fun process_refs :: "cfg \<Rightarrow> run_id \<Rightarrow> int \<Rightarrow> ref list \<Rightarrow> cstate \<Rightarrow> error + cstate" where
  "process_refs g old_sim_proc sim_proc_addr [] s = Inr s"
| "process_refs g old_sim_proc sim_proc_addr (r # rs) s =
     (case r of
        SimMemWrite _ a _ _ _ _ \<Rightarrow>
          if \<not> is_symbolic a then
            (case var_i s of
               None \<Rightarrow> Inl UnboundLocalError
             | Some i \<Rightarrow>
                 (case write_concrete g (sim_proc_addr, i) (any a) s of
                    Inl e \<Rightarrow> Inl e
                  | Inr s' \<Rightarrow> process_refs g old_sim_proc sim_proc_addr rs s'))
          else process_refs g old_sim_proc sim_proc_addr rs
                 (s\<lparr>symbolic_mem_ops := set_add (old_sim_proc, r) (symbolic_mem_ops s)\<rparr>)
      | SimMemRead _ a _ _ _ _ \<Rightarrow>
          if \<not> is_symbolic a then
            (case lookup_frame g s (any a) of
               Inl e \<Rightarrow> Inl e
             | Inr k \<Rightarrow>
                 (case addr_to_ref (call_stack (current_run_wrapper s) ! k) (any a) of
                    Some tpl \<Rightarrow> Inr (s\<lparr>ddg := add_edge (ddg s) sim_proc_addr (- 1) tpl\<rparr>)
                  | None \<Rightarrow> process_refs g old_sim_proc sim_proc_addr rs s))
          else process_refs g old_sim_proc sim_proc_addr rs
                 (s\<lparr>symbolic_mem_ops := set_add (old_sim_proc, r) (symbolic_mem_ops s)\<rparr>)
      | _ \<Rightarrow> process_refs g old_sim_proc sim_proc_addr rs s)"

text \<open>Lines 229 to 334.\<close>

definition process_run :: "cfg \<Rightarrow> run_id \<Rightarrow> run_obj \<Rightarrow> cstate \<Rightarrow> error + cstate" where
  "process_run g r new_run s =
     (case new_run of
        SimIRSB a stmts _ _ \<Rightarrow> process_stmts g r a 0 stmts s
      | SimProcedure a rs _ _ \<Rightarrow> process_refs g r a rs s)"

text \<open>
  Lines 342 to 395: the body of \<open>for successor in successors\<close>. \<open>push\<close> is lines 390 to
  394. The call stack of the new wrapper is a deep copy of the current one.
\<close>

definition push :: "run_id \<Rightarrow> state option \<Rightarrow> StackFrame list \<Rightarrow> cstate \<Rightarrow> cstate" where
  "push successor st new_call_stack s =
     s\<lparr>run_stack := run_stack s @
          [\<lparr>run = successor, new_state = st, call_stack = new_call_stack,
            reanalyze_successors = reanalyze_successors_flag s\<rparr>]\<rparr>"

definition expand_successor ::
  "cfg \<Rightarrow> run_id \<Rightarrow> run_obj \<Rightarrow> run_id \<Rightarrow> int set \<times> cstate \<Rightarrow> error + int set \<times> cstate" where
  "expand_successor g r new_run successor x =
     (case x of (succ_targets, s) \<Rightarrow>
      if (case scanned_runs s successor of
            None \<Rightarrow> False
          | Some n \<Rightarrow> \<not> (reanalyze_successors_flag s \<and> n < MAX_BBL_ANALYZE_TIMES))
      then Inr x
      else if \<exists>w \<in> set (run_stack s). run w = successor then Inr x
      else
        (let succ_addr = run_addr (node g successor) in
         if succ_addr \<in> succ_targets then Inr x
         else if run_addr (node g r) = 1083205340 \<and> \<not> ipdb_importable g then Inl ImportError
         else
           (let succ_exit = filter (\<lambda>ex. concretize ex = succ_addr) (exits new_run);
                st = (if length succ_exit > 0 then Some (exit_state (hd succ_exit)) else None);
                s1 = (if length succ_exit > 0 then s
                      else s\<lparr>warnings := warnings s @ [CannotFindTarget r succ_addr]\<rparr>);
                new_call_stack = call_stack (current_run_wrapper s)
            in case exits new_run of
                 [] \<Rightarrow> Inl IndexError
               | ex0 # _ \<Rightarrow>
                   if jumpkind ex0 = ''Ijk_Call'' then
                     (case st of
                        None \<Rightarrow> Inl AttributeError
                      | Some ns \<Rightarrow>
                          Inr (insert succ_addr succ_targets,
                               push successor st
                                 (new_call_stack @
                                    [\<lparr>initial_sp = Some (any (sp_value ns)),
                                      addr_to_ref = Map.empty\<rparr>]) s1))
                   else if jumpkind ex0 = ''Ijk_Ret'' then
                     (if length new_call_stack > 1
                      then Inr (insert succ_addr succ_targets,
                                push successor st (butlast new_call_stack) s1)
                      else Inr (insert succ_addr succ_targets,
                                push successor st new_call_stack
                                  (s1\<lparr>warnings := warnings s1 @ [StackAlreadyEmpty]\<rparr>)))
                   else Inr (insert succ_addr succ_targets,
                             push successor st new_call_stack s1))))"

fun expand_successors ::
  "cfg \<Rightarrow> run_id \<Rightarrow> run_obj \<Rightarrow> run_id list \<Rightarrow> int set \<times> cstate \<Rightarrow> error + int set \<times> cstate" where
  "expand_successors g r new_run [] x = Inr x"
| "expand_successors g r new_run (successor # rest) x =
     (case expand_successor g r new_run successor x of
        Inl e \<Rightarrow> Inl e
      | Inr x' \<Rightarrow> expand_successors g r new_run rest x')"

text \<open>
  One iteration of the \<open>while\<close> loop of line 214 on a non-empty \<open>run_stack\<close>. Reading
  \<open>scanned_runs[run]\<close> for the debug message of line 218 makes \<open>run\<close> a key.
\<close>

definition construct_step :: "cfg \<Rightarrow> cstate \<Rightarrow> error + cstate" where
  "construct_step g s =
     (let w = last (run_stack s);
          r = run w;
          s1 = s\<lparr>run_stack := butlast (run_stack s), current_run_wrapper := w\<rparr>;
          s2 = s1\<lparr>scanned_runs := (scanned_runs s1)(r \<mapsto> scanned_count s1 r)\<rparr>
      in if scanned_count s2 r > MAX_BBL_ANALYZE_TIMES then Inr s2
         else
           (let s3 = s2\<lparr>scanned_runs := (scanned_runs s2)(r \<mapsto> scanned_count s2 r + 1)\<rparr>;
                new_run = reanalyze g r (new_state w);
                s4 = s3\<lparr>reanalyze_successors_flag := reanalyze_successors w\<rparr>
            in case process_run g r new_run s4 of
                 Inl e \<Rightarrow> Inl e
               | Inr s5 \<Rightarrow>
                   (case expand_successors g r new_run (get_successors g r) ({}, s5) of
                      Inl e \<Rightarrow> Inl e
                    | Inr (succ_targets, s6) \<Rightarrow> Inr s6)))"

text \<open>Lines 173 to 213: the state before the loop, for a fresh builder.\<close>

definition construct_init :: "cfg \<Rightarrow> cstate" where
  "construct_init g =
     (let initial_call_frame = \<lparr>initial_sp = Some (stack_ubound g), addr_to_ref = Map.empty\<rparr>;
          initial_wrapper = \<lparr>run = get_irsb g, new_state = None,
                             call_stack = [initial_call_frame], reanalyze_successors = False\<rparr>
      in \<lparr>run_stack = [initial_wrapper], scanned_runs = Map.empty, ddg = (\<lambda>a i. {}),
          symbolic_mem_ops = [], current_run_wrapper = initial_wrapper,
          reanalyze_successors_flag = False, var_i = None, warnings = []\<rparr>)"

text \<open>The state after \<open>n\<close> iterations of the loop (or when it ended before).\<close>

fun construct_iter :: "cfg \<Rightarrow> nat \<Rightarrow> error + cstate" where
  "construct_iter g 0 = Inr (construct_init g)"
| "construct_iter g (Suc n) =
     (case construct_iter g n of
        Inl e \<Rightarrow> Inl e
      | Inr s \<Rightarrow> if length (run_stack s) > 0 then construct_step g s else Inr s)"

text \<open>The loop of line 214; \<open>None\<close> is a walk that never ends.\<close>

partial_function (option) construct_loop :: "cfg \<Rightarrow> cstate \<Rightarrow> (error + cstate) option" where
  "construct_loop g s =
     (if length (run_stack s) > 0
      then (case construct_step g s of
              Inl e \<Rightarrow> Some (Inl e)
            | Inr s' \<Rightarrow> construct_loop g s')
      else Some (Inr s))"

section \<open>Symbolic reconciliation: \<open>_solve_symbolic_mem_operations\<close>\<close>

text \<open>
  \<open>mem_read_producers\<close> and \<open>mem_write_producers\<close> are \<open>defaultdict(list)\<close>s keyed by
  source: the set of keys together with the list of each key (\<open>[]\<close> for a missing key).
\<close>

type_synonym producers = "(int \<times> int) set \<times> ((int \<times> int) \<Rightarrow> (int \<times> ref) list)"

definition is_mem_read :: "ref \<Rightarrow> bool" where
  "is_mem_read r = (case r of SimMemRead _ _ _ _ _ _ \<Rightarrow> True | _ \<Rightarrow> False)"

definition is_mem_write :: "ref \<Rightarrow> bool" where
  "is_mem_write r = (case r of SimMemWrite _ _ _ _ _ _ \<Rightarrow> True | _ \<Rightarrow> False)"

text \<open>\<open>for src in srcs: d[src].append(v)\<close>; every source of the set gets \<open>v\<close> once.\<close>

definition add_producer :: "producers \<Rightarrow> (int \<times> int) set \<Rightarrow> int \<times> ref \<Rightarrow> producers" where
  "add_producer d srcs v =
     (fst d \<union> srcs, \<lambda>tpl. if tpl \<in> srcs then snd d tpl @ [v] else snd d tpl)"

text \<open>
  Lines 134 to 140, over the operations in the order the list gives. A trace that never
  returns or raises ends the pass.
\<close>

fun collect_producers ::
  "cfg \<Rightarrow> (run_id \<times> ref) list \<Rightarrow> producers \<times> producers \<Rightarrow>
     (error + producers \<times> producers) option" where
  "collect_producers g [] acc = Some (Inr acc)"
| "collect_producers g ((irsb, r) # ops) (mem_read_producers, mem_write_producers) =
     (case trace_source g irsb r of
        None \<Rightarrow> None
      | Some (Inl e) \<Rightarrow> Some (Inl e)
      | Some (Inr srcs) \<Rightarrow>
          collect_producers g ops
            (if is_mem_read r
             then (add_producer mem_read_producers srcs (run_addr (node g irsb), r),
                   mem_write_producers)
             else if is_mem_write r
             then (mem_read_producers,
                   add_producer mem_write_producers srcs (run_addr (node g irsb), r))
             else (mem_read_producers, mem_write_producers)))"

text \<open>
  Lines 142 to 147: for every key of \<open>mem_write_producers\<close> that is a key of
  \<open>mem_read_producers\<close>, every read of its list gets every write of its list. The edges
  go into sets, so the order of the three loops does not show.
\<close>

definition link_producers ::
  "producers \<Rightarrow> producers \<Rightarrow> (int \<Rightarrow> int \<Rightarrow> (int \<times> int) set) \<Rightarrow>
     (int \<Rightarrow> int \<Rightarrow> (int \<times> int) set)" where
  "link_producers mem_read_producers mem_write_producers d =
     (\<lambda>a i. d a i \<union>
        (\<Union>tpl \<in> fst mem_write_producers \<inter> fst mem_read_producers.
           \<Union>rd \<in> set (snd mem_read_producers tpl).
             if fst rd = a \<and> stmt_idx (snd rd) = i
             then (\<lambda>wr. (fst wr, stmt_idx (snd wr))) ` set (snd mem_write_producers tpl)
             else {}))"

definition solve_symbolic_mem_operations :: "cfg \<Rightarrow> cstate \<Rightarrow> (error + cstate) option" where
  "solve_symbolic_mem_operations g s =
     (case collect_producers g (symbolic_mem_ops s) (({}, \<lambda>tpl. []), ({}, \<lambda>tpl. [])) of
        None \<Rightarrow> None
      | Some (Inl e) \<Rightarrow> Some (Inl e)
      | Some (Inr (mem_read_producers, mem_write_producers)) \<Rightarrow>
          Some (Inr (s\<lparr>ddg := link_producers mem_read_producers mem_write_producers (ddg s)\<rparr>)))"

text \<open>\<open>construct\<close>: the walk, then the reconciliation (line 397).\<close>

definition construct :: "cfg \<Rightarrow> (error + cstate) option" where
  "construct g =
     (case construct_loop g (construct_init g) of
        None \<Rightarrow> None
      | Some (Inl e) \<Rightarrow> Some (Inl e)
      | Some (Inr s) \<Rightarrow> solve_symbolic_mem_operations g s)"

section \<open>Predicates used in the statements and proofs\<close>

text \<open>
  The invariant of the walk: no counter exceeds the bound, every queued run has been
  scanned fewer than \<open>MAX_BBL_ANALYZE_TIMES\<close> times, and no run is queued twice.
\<close>

definition scan_inv :: "cstate \<Rightarrow> bool" where
  "scan_inv s =
     ((\<forall>r. scanned_count s r \<le> MAX_BBL_ANALYZE_TIMES) \<and>
      (\<forall>w \<in> set (run_stack s). scanned_count s (run w) < MAX_BBL_ANALYZE_TIMES) \<and>
      distinct (map run (run_stack s)))"

text \<open>Two states with the same queue and the same counters.\<close>

definition same_queue :: "cstate \<Rightarrow> cstate \<Rightarrow> bool" where
  "same_queue s s' = (run_stack s' = run_stack s \<and> scanned_runs s' = scanned_runs s)"

text \<open>The part of the invariant that speaks of the queue.\<close>

definition queue_ok :: "cstate \<Rightarrow> bool" where
  "queue_ok s =
     ((\<forall>w \<in> set (run_stack s). scanned_count s (run w) < MAX_BBL_ANALYZE_TIMES) \<and>
      distinct (map run (run_stack s)))"

text \<open>Every queued wrapper has a call stack with a frame.\<close>

definition frames_ok :: "cstate \<Rightarrow> bool" where
  "frames_ok s = (\<forall>w \<in> set (run_stack s). call_stack w \<noteq> [])"

text \<open>
  The operations of kind \<open>kind\<close> among \<open>ops\<close> whose trace returns and has \<open>tpl\<close> among its
  sources, each as the pair \<open>(run.addr, ref)\<close> the producer dictionaries hold.
\<close>

definition traced_by ::
  "cfg \<Rightarrow> (run_id \<times> ref) list \<Rightarrow> (ref \<Rightarrow> bool) \<Rightarrow> int \<times> int \<Rightarrow> (int \<times> ref) set" where
  "traced_by g ops kind tpl =
     {(run_addr (node g irsb), r) | irsb r srcs.
        (irsb, r) \<in> set ops \<and> kind r \<and> trace_source g irsb r = Some (Inr srcs) \<and> tpl \<in> srcs}"

text \<open>
  The writer a memory read resolves to in state \<open>s\<close>: its address is concrete and the
  frame found for it holds a write at that address.
\<close>

definition read_hit :: "cfg \<Rightarrow> cstate \<Rightarrow> ref \<Rightarrow> (int \<times> int) option" where
  "read_hit g s r =
     (case r of
        SimMemRead _ a _ _ _ _ \<Rightarrow>
          if is_symbolic a then None
          else (case lookup_frame g s (any a) of
                  Inl e \<Rightarrow> None
                | Inr k \<Rightarrow> addr_to_ref (call_stack (current_run_wrapper s) ! k) (any a))
      | _ \<Rightarrow> None)"


section \<open>Example inputs\<close>

text \<open>An abstract state whose stack pointer is the concrete value \<open>0x80000000\<close>.\<close>

definition sp0 :: state where
  "sp0 = State (SymExpr False 2147483648)"

text \<open>
  A block of three statements followed by a summary procedure that writes the concrete
  address \<open>0x6000\<close> and then reads it.
\<close>

definition summary_cfg :: cfg where
  "summary_cfg = \<lparr>get_irsb = 0,
     get_predecessors = (\<lambda>n. if n = 1 then [0] else []),
     get_successors = (\<lambda>n. if n = 0 then [1] else []),
     node = (\<lambda>n. if n = 0
               then SimIRSB 4096 [Stmt [], Stmt [SimRegWrite 1 8 [] []], Stmt [SimTmpWrite 2 3 [8] []]]
                      [Exit 8192 ''Ijk_Boring'' sp0] sp0
               else SimProcedure 8192
                      [SimMemWrite (- 1) (SymExpr False 24576) [] [] [] [],
                       SimMemRead (- 1) (SymExpr False 24576) [] [] [] []] [] sp0),
     reanalyze = (\<lambda>n st. if n = 0
               then SimIRSB 4096 [Stmt [], Stmt [SimRegWrite 1 8 [] []], Stmt [SimTmpWrite 2 3 [8] []]]
                      [Exit 8192 ''Ijk_Boring'' sp0] sp0
               else SimProcedure 8192
                      [SimMemWrite (- 1) (SymExpr False 24576) [] [] [] [],
                       SimMemRead (- 1) (SymExpr False 24576) [] [] [] []] [] sp0),
     ipdb_importable = True\<rparr>"

text \<open>
  A block whose only exit is a call to \<open>0x3000\<close>, while its CFG successor is the block at
  \<open>0x2000\<close>.
\<close>

definition call_cfg :: cfg where
  "call_cfg = \<lparr>get_irsb = 0,
     get_predecessors = (\<lambda>n. if n = 1 then [0] else []),
     get_successors = (\<lambda>n. if n = 0 then [1] else []),
     node = (\<lambda>n. if n = 0 then SimIRSB 4096 [] [Exit 12288 ''Ijk_Call'' sp0] sp0
               else SimIRSB 8192 [] [] sp0),
     reanalyze = (\<lambda>n st. if n = 0 then SimIRSB 4096 [] [Exit 12288 ''Ijk_Call'' sp0] sp0
               else SimIRSB 8192 [] [] sp0),
     ipdb_importable = True\<rparr>"

text \<open>
  A block followed by a summary procedure that reads memory at a symbolic address.
\<close>

definition proc_ref :: ref where
  "proc_ref = SimMemRead (- 1) (SymExpr True 0) [8] [] [] []"

definition proc_cfg :: cfg where
  "proc_cfg = \<lparr>get_irsb = 0,
     get_predecessors = (\<lambda>n. if n = 1 then [0] else []),
     get_successors = (\<lambda>n. if n = 0 then [1] else []),
     node = (\<lambda>n. if n = 0 then SimIRSB 4096 [] [Exit 8192 ''Ijk_Boring'' sp0] sp0
               else SimProcedure 8192 [proc_ref] [] sp0),
     reanalyze = (\<lambda>n st. if n = 0 then SimIRSB 4096 [] [Exit 8192 ''Ijk_Boring'' sp0] sp0
               else SimProcedure 8192 [proc_ref] [] sp0),
     ipdb_importable = True\<rparr>"

text \<open>
  A block that writes register 8, then writes and then reads memory at symbolic addresses
  computed from register 8.
\<close>

definition share_write :: ref where
  "share_write = SimMemWrite 1 (SymExpr True 0) [8] [] [] []"

definition share_read :: ref where
  "share_read = SimMemRead 2 (SymExpr True 0) [8] [] [] []"

definition share_cfg :: cfg where
  "share_cfg = \<lparr>get_irsb = 0,
     get_predecessors = (\<lambda>n. []),
     get_successors = (\<lambda>n. []),
     node = (\<lambda>n. SimIRSB 4096
               [Stmt [SimRegWrite 0 8 [] []], Stmt [share_write], Stmt [share_read]] [] sp0),
     reanalyze = (\<lambda>n st. SimIRSB 4096
               [Stmt [SimRegWrite 0 8 [] []], Stmt [share_write], Stmt [share_read]] [] sp0),
     ipdb_importable = True\<rparr>"

text \<open>A state of the walk in which run 0 has been scanned 41 times.\<close>

definition frozen_state :: cstate where
  "frozen_state = (construct_init summary_cfg)\<lparr>scanned_runs := [0 \<mapsto> 41]\<rparr>"

text \<open>A state of the walk whose only frame holds a write at \<open>0x6000\<close>.\<close>

definition hit_state :: cstate where
  "hit_state = (construct_init summary_cfg)
     \<lparr>current_run_wrapper :=
        \<lparr>run = 0, new_state = None,
         call_stack = [\<lparr>initial_sp = Some 2147483648, addr_to_ref = [24576 \<mapsto> (4096, 0)]\<rparr>],
         reanalyze_successors = False\<rparr>\<rparr>"


definition frame_outer :: StackFrame where
  "frame_outer = \<lparr>initial_sp = Some 2147483648, addr_to_ref = Map.empty\<rparr>"

definition frame_inner :: StackFrame where
  "frame_inner = \<lparr>initial_sp = Some 2147483392, addr_to_ref = Map.empty\<rparr>"


text \<open>
  A block that reads memory through registers 0 and 5 and has no predecessor.
\<close>

definition zero_ref :: ref where
  "zero_ref = SimMemRead 0 (SymExpr True 0) [0, 5] [] [] []"

definition zero_cfg :: cfg where
  "zero_cfg = \<lparr>get_irsb = 0,
     get_predecessors = (\<lambda>n. []),
     get_successors = (\<lambda>n. []),
     node = (\<lambda>n. SimIRSB 1024 [Stmt [zero_ref]] [] (State (SymExpr False 0))),
     reanalyze = (\<lambda>n st. SimIRSB 1024 [Stmt [zero_ref]] [] (State (SymExpr False 0))),
     ipdb_importable = True\<rparr>"

text \<open>
  A block whose only statement loads from memory into a temporary: its references are
  the memory read (address from register 1) and then the write of temporary 3, whose data
  depends on temporary 7.
\<close>

definition seed_read :: ref where
  "seed_read = SimMemRead 0 (SymExpr True 0) [1] [] [] []"

definition seed_cfg :: cfg where
  "seed_cfg = \<lparr>get_irsb = 0,
     get_predecessors = (\<lambda>n. []),
     get_successors = (\<lambda>n. []),
     node = (\<lambda>n. SimIRSB 4096 [Stmt [seed_read, SimTmpWrite 0 3 [] [7]]] []
                    (State (SymExpr False 0))),
     reanalyze = (\<lambda>n st. SimIRSB 4096 [Stmt [seed_read, SimTmpWrite 0 3 [] [7]]] []
                    (State (SymExpr False 0))),
     ipdb_importable = True\<rparr>"

text \<open>
  Three blocks. Block 0 (address 256) reads memory through register 8 and then writes
  register 8. Block 1 (address 512) writes register 8 from register 12; block 2
  (address 768) writes register 12 from register 8. The CFG edges are
  \<open>1 \<rightarrow> 0\<close>, \<open>0 \<rightarrow> 1\<close>, \<open>2 \<rightarrow> 1\<close> and \<open>1 \<rightarrow> 2\<close>.
\<close>

definition loop_ref :: ref where
  "loop_ref = SimMemRead 0 (SymExpr True 0) [8] [] [] []"

definition I_obj :: run_obj where
  "I_obj = SimIRSB 256 [Stmt [loop_ref], Stmt [SimRegWrite 1 8 [] []]] []
             (State (SymExpr False 0))"

definition A_obj :: run_obj where
  "A_obj = SimIRSB 512 [Stmt [SimRegWrite 0 8 [12] []]] [] (State (SymExpr False 0))"

definition B_obj :: run_obj where
  "B_obj = SimIRSB 768 [Stmt [SimRegWrite 0 12 [8] []]] [] (State (SymExpr False 0))"

definition loop_cfg :: cfg where
  "loop_cfg = \<lparr>get_irsb = 0,
     get_predecessors =
       (\<lambda>n. if n = 0 then [1] else if n = 1 then [2, 0] else if n = 2 then [1] else []),
     get_successors =
       (\<lambda>n. if n = 0 then [1] else if n = 1 then [0, 2] else if n = 2 then [1] else []),
     node = (\<lambda>n. if n = 0 then I_obj else if n = 1 then A_obj else B_obj),
     reanalyze = (\<lambda>n st. if n = 0 then I_obj else if n = 1 then A_obj else B_obj),
     ipdb_importable = True\<rparr>"

text \<open>The states the traversal of \<open>loop_cfg\<close> alternates between.\<close>

definition loop_inv :: "tstate \<Rightarrow> bool" where
  "loop_inv s =
     (traced s 256 = Some {12} \<and> traced s 512 = Some {12} \<and> traced s 768 = Some {8} \<and>
      (stack s = [(1, - 1, {8, 12}, {})] \<or> stack s = [(2, - 1, {8, 12}, {})]))"

section \<open>Properties of the call-stack tracker\<close>

lemma scan_reversed_Some:
  "scan_reversed frs a = Some k \<Longrightarrow>
     k < length frs \<and> owns (rev frs ! k) a \<and>
     (\<forall>j. k < j \<and> j < length frs \<longrightarrow> \<not> owns (rev frs ! j) a)"
proof (induction frs arbitrary: k)
  case Nil
  then show ?case by simp
next
  case (Cons fr frs)
  show ?case
  proof (cases "owns fr a")
    case True
    with Cons.prems have k: "k = length frs"
      by (auto simp: owns_def split: option.splits if_splits)
    from True show ?thesis
      by (auto simp: k nth_append)
  next
    case False
    with Cons.prems have rec: "scan_reversed frs a = Some k"
      by (auto simp: owns_def split: option.splits if_splits)
    from Cons.IH [OF rec] have kl: "k < length frs"
      and ok: "owns (rev frs ! k) a"
      and above: "\<forall>j. k < j \<and> j < length frs \<longrightarrow> \<not> owns (rev frs ! j) a"
      by simp_all
    have "\<not> owns ((rev frs @ [fr]) ! j) a" if "k < j" "j < Suc (length frs)" for j
    proof (cases "j < length frs")
      case True
      with above that show ?thesis by (simp add: nth_append)
    next
      case False
      with that have "j = length frs" by simp
      with \<open>\<not> owns fr a\<close> show ?thesis by (simp add: nth_append)
    qed
    with kl ok show ?thesis
      by (simp add: nth_append)
  qed
qed

lemma scan_reversed_None:
  "scan_reversed frs a = None \<Longrightarrow> \<forall>fr \<in> set frs. \<not> owns fr a"
  by (induction frs) (auto simp: owns_def split: option.splits if_splits)

text \<open>
  C6. On a non-empty call stack the lookup never fails and returns a frame of the stack.
  With \<open>stack_lbound = stack_ubound - 8192\<close>: for an address outside
  \<open>[stack_lbound, stack_ubound]\<close> it is the outermost frame (position 0); otherwise it is
  the innermost frame whose \<open>initial_sp\<close> is \<open>None\<close> or strictly greater than the address
  (the first one met scanning from the innermost frame outwards), and the outermost frame
  when no frame qualifies.
\<close>

theorem find_frame_by_addr_spec:
  assumes "stk \<noteq> []"
  shows "\<exists>k. find_frame_by_addr (ub - 8192) ub stk a = Inr k \<and>
           k < length stk \<and>
           (if a < ub - 8192 \<or> ub < a then k = 0
            else if \<exists>fr \<in> set stk. owns fr a
              then owns (stk ! k) a \<and>
                   (\<forall>j. k < j \<and> j < length stk \<longrightarrow> \<not> owns (stk ! j) a)
              else k = 0)"
proof (cases "a < ub - 8192 \<or> ub < a")
  case True
  with assms show ?thesis
    by (auto simp: find_frame_by_addr_def)
next
  case inside: False
  show ?thesis
  proof (cases "scan_reversed (rev stk) a")
    case None
    from scan_reversed_None [OF None] have "\<not> (\<exists>fr \<in> set stk. owns fr a)"
      by simp
    with None inside assms show ?thesis
      by (auto simp: find_frame_by_addr_def)
  next
    case (Some k)
    from scan_reversed_Some [OF Some]
    have kl: "k < length stk" and ok: "owns (stk ! k) a"
      and above: "\<forall>j. k < j \<and> j < length stk \<longrightarrow> \<not> owns (stk ! j) a"
      by simp_all
    from kl ok have "\<exists>fr \<in> set stk. owns fr a"
      using nth_mem by blast
    with Some inside assms kl ok above show ?thesis
      by (auto simp: find_frame_by_addr_def)
  qed
qed

theorem find_frame_by_addr_spec_witness:
  "[frame_outer, frame_inner] \<noteq> [] \<and>
   find_frame_by_addr (2147483648 - 8192) 2147483648 [frame_outer, frame_inner] 2147483624
     = Inr 0 \<and>
   find_frame_by_addr (2147483648 - 8192) 2147483648 [frame_outer, frame_inner] 2147483000
     = Inr 1 \<and>
   find_frame_by_addr (2147483648 - 8192) 2147483648 [frame_outer, frame_inner] 16384
     = Inr 0"
proof -
  have ne: "[frame_outer, frame_inner] \<noteq> []" by simp
  from find_frame_by_addr_spec [OF ne, of 2147483648 2147483624]
  have "find_frame_by_addr (2147483648 - 8192) 2147483648 [frame_outer, frame_inner]
          2147483624 = Inr 0"
    by (simp add: find_frame_by_addr_def frame_outer_def frame_inner_def)
  then show ?thesis
    by (simp add: find_frame_by_addr_def frame_outer_def frame_inner_def)
qed


section \<open>Properties of the use-def tracer\<close>

lemmas ex_defs = zero_cfg_def zero_ref_def seed_cfg_def seed_read_def loop_cfg_def I_obj_def A_obj_def
  B_obj_def loop_ref_def trace_init_def py_index_def seed_deps_def trace_step_def walk_run_def
  walk_ref_def enqueue_pred_def sentinel_sources_def

subsection \<open>The initial dependencies\<close>

lemma py_index_last: "xs \<noteq> [] \<Longrightarrow> py_index xs (- 1) = Inr (last xs)"
  by (cases xs rule: rev_cases) (auto simp: py_index_def nth_append)

text \<open>
  C7 (as amended). The trace of \<open>(init_run, init_ref)\<close> starts from the dependencies of
  \<open>real_ref\<close>, the last reference of statement \<open>init_ref.stmt_idx\<close> of \<open>init_run\<close>, not from
  those of \<open>init_ref\<close>: for a memory write, the address and data dependencies; for a memory
  read, the address dependencies only; for any other kind, the data dependencies. When
  \<open>init_ref\<close> is itself the last reference of its statement this is the seed the claim
  states.
\<close>

theorem seed_from_real_ref:
  assumes "node g init_run = SimIRSB a stmts ex st0"
    and "py_index stmts (stmt_idx init_ref) = Inr stm"
    and "refs stm \<noteq> []"
  shows "\<exists>rd td. trace_init g init_run init_ref =
           Inr \<lparr>stack = [(init_run, stmt_idx init_ref, rd, td)], traced = Map.empty,
                sources = {}\<rparr> \<and>
         (case last (refs stm) of
            SimMemWrite _ _ ard atd drd dtd \<Rightarrow>
              rd = set ard \<union> set drd \<and> td = set atd \<union> set dtd
          | SimMemRead _ _ ard atd drd dtd \<Rightarrow> rd = set ard \<and> td = set atd
          | other \<Rightarrow> rd = set (data_reg_deps other) \<and> td = set (data_tmp_deps other))"
  using assms
  by (cases "last (refs stm)")
     (auto simp: trace_init_def py_index_last seed_deps_def)

theorem seed_from_real_ref_witness:
  "trace_init seed_cfg 0 seed_read =
     Inr \<lparr>stack = [(0, 0, {}, {7})], traced = Map.empty, sources = {}\<rparr>"
proof -
  have n: "node seed_cfg 0 = SimIRSB 4096 [Stmt [seed_read, SimTmpWrite 0 3 [] [7]]] []
             (State (SymExpr False 0))"
    by (simp add: seed_cfg_def)
  have p: "py_index [Stmt [seed_read, SimTmpWrite 0 3 [] [7]]] (stmt_idx seed_read)
             = Inr (Stmt [seed_read, SimTmpWrite 0 3 [] [7]])"
    by (simp add: py_index_def seed_read_def)
  have r: "refs (Stmt [seed_read, SimTmpWrite 0 3 [] [7]]) \<noteq> []" by simp
  from seed_from_real_ref [OF n p r] show ?thesis
    by (auto simp: seed_read_def)
qed

text \<open>
  C7 as stated fails: the seed is not read off the traced reference. In \<open>seed_cfg\<close> the
  traced memory read has address dependencies \<open>({1}, {})\<close>, and the trace starts from
  \<open>({}, {7})\<close>, the data dependencies of the temporary write that ends the statement.
\<close>

theorem seed_from_traced_ref_counterexample:
  "\<not> (\<forall>g init_run init_ref s. trace_init g init_run init_ref = Inr s \<longrightarrow>
        (\<exists>sid. stack s = [(init_run, sid, fst (seed_deps init_ref), snd (seed_deps init_ref))]))"
proof
  assume "\<forall>g init_run init_ref s. trace_init g init_run init_ref = Inr s \<longrightarrow>
        (\<exists>sid. stack s = [(init_run, sid, fst (seed_deps init_ref), snd (seed_deps init_ref))])"
  moreover have "trace_init seed_cfg 0 seed_read =
     Inr \<lparr>stack = [(0, 0, {}, {7})], traced = Map.empty, sources = {}\<rparr>"
    by (simp add: trace_init_def seed_cfg_def seed_read_def py_index_def seed_deps_def)
  ultimately have "\<exists>sid. [(0::nat, 0::int, {}::int set, {7::int})] =
      [(0, sid, fst (seed_deps seed_read), snd (seed_deps seed_read))]"
    by fastforce
  then show False
    by (simp add: seed_deps_def seed_read_def)
qed

subsection \<open>Sentinel sources\<close>

lemma sentinel_sources_iff:
  "src \<in> sentinel_sources reg_deps m \<longleftrightarrow>
     (\<exists>reg \<in> reg_deps. map_of m reg = None \<and> src = (- reg, - 1))"
  by (auto simp: sentinel_sources_def)

text \<open>
  C5 (as amended). When the walk of a run ends a use-def chain (\<open>reg_deps\<close> is empty or
  the run has no predecessor), the step succeeds and, for every register still in
  \<open>reg_deps\<close> that no statement of this run wrote (it is not a key of
  \<open>reg_dep_to_stmt_id\<close>), \<open>(-offset, -1)\<close> is among the sources. Every sentinel has this
  form, so its address is negative exactly when the offset is positive; for offset 0 it
  is 0.
\<close>

theorem sentinel_at_chain_end:
  assumes "stack s \<noteq> []"
    and "last (stack s) = (r, stmt_id, rd0, td0)"
    and "walk_run (node g r) stmt_id (rd0, td0, []) = Inr (reg_deps, tmp_deps, m)"
    and "reg_deps = {} \<or> get_predecessors g r = []"
  shows "\<exists>s'. trace_step g s = Inr s' \<and>
           (\<forall>reg \<in> reg_deps. map_of m reg = None \<longrightarrow> (- reg, - 1) \<in> sources s') \<and>
           (\<forall>src \<in> sentinel_sources reg_deps m.
              src \<in> sources s' \<and>
              (\<exists>reg \<in> reg_deps. map_of m reg = None \<and> src = (- reg, - 1) \<and>
                 (fst src < 0 \<longleftrightarrow> 0 < reg)))"
  using assms
  by (auto simp: trace_step_def sentinel_sources_iff Let_def)

theorem sentinel_at_chain_end_witness:
  "\<exists>s'. trace_step zero_cfg \<lparr>stack = [(0, 0, {0, 5}, {})], traced = Map.empty, sources = {}\<rparr>
           = Inr s' \<and> (- 5, - 1) \<in> sources s' \<and> (0, - 1) \<in> sources s'"
proof -
  let ?s = "\<lparr>stack = [(0, 0, {0, 5}, {}::int set)], traced = Map.empty, sources = {}\<rparr>"
  have a: "stack ?s \<noteq> []" by simp
  have b: "last (stack ?s) = (0, 0, {0, 5}, {})" by simp
  have c: "walk_run (node zero_cfg 0) 0 ({0, 5}, {}, []) = Inr ({0, 5}, {}, [])"
    by (simp add: zero_cfg_def zero_ref_def walk_run_def walk_ref_def)
  have d: "{0, 5 :: int} = {} \<or> get_predecessors zero_cfg 0 = []"
    by (simp add: zero_cfg_def)
  from sentinel_at_chain_end [OF a b c d] show ?thesis
    by fastforce
qed

text \<open>
  C5 as stated fails for register offset 0: the trace of \<open>zero_ref\<close> returns the sentinel
  \<open>(0, -1)\<close>, whose address is not negative.
\<close>

theorem sentinel_negative_counterexample:
  "trace_source zero_cfg 0 zero_ref = Some (Inr {(0, - 1), (- 5, - 1)}) \<and>
   (0, - 1) \<in> sentinel_sources {0, 5} [] \<and> \<not> fst (0 :: int, - 1 :: int) < 0"
  by (simp add: trace_source_def trace_init_def trace_loop.simps trace_step_def zero_cfg_def
      zero_ref_def py_index_def seed_deps_def walk_run_def walk_ref_def sentinel_sources_def
      insert_commute)

subsection \<open>The memo and termination\<close>

text \<open>
  A predecessor whose address is already in \<open>traced\<close> is pushed only with a strict
  superset of its memo.
\<close>

lemma enqueue_pred_strict_superset:
  assumes "tr (run_addr (node g p)) = Some old_reg_deps"
    and "(p', sid, rd, td) \<in> set (enqueue_pred g tr reg_deps p)"
  shows "old_reg_deps \<subset> rd"
  using assms
  by (auto simp: enqueue_pred_def split: if_splits)

lemma loop_inv_step: "loop_inv s \<Longrightarrow> \<exists>s'. trace_step loop_cfg s = Inr s' \<and> loop_inv s'"
  unfolding loop_inv_def
  by (auto simp: ex_defs)

lemma loop_inv_nonempty: "loop_inv s \<Longrightarrow> length (stack s) > 0"
  unfolding loop_inv_def by auto

lemma trace_loop_Some_not_inv:
  assumes "trace_loop g s = Some y"
  shows "g = loop_cfg \<longrightarrow> \<not> loop_inv s"
proof (rule trace_loop.raw_induct
    [where P = "\<lambda>g s y. g = loop_cfg \<longrightarrow> \<not> loop_inv s", OF _ assms], goal_cases)
  case (1 f g s y)
  show ?case
  proof (intro impI notI)
    assume g: "g = loop_cfg" and inv: "loop_inv s"
    from loop_inv_step [OF inv] obtain s' where st: "trace_step loop_cfg s = Inr s'" and inv': "loop_inv s'"
      by blast
    from 1(2) g st loop_inv_nonempty [OF inv] have "f g s' = Some y" by simp
    from 1(1) [OF this] g inv' show False by simp
  qed
qed

lemma trace_loop_diverges:
  assumes "loop_inv s" shows "trace_loop loop_cfg s = None"
proof (cases "trace_loop loop_cfg s")
  case None
  then show ?thesis .
next
  case (Some y)
  from trace_loop_Some_not_inv [OF Some] assms show ?thesis by simp
qed

lemma trace_loop_step:
  "length (stack s) > 0 \<Longrightarrow> trace_step g s = Inr s' \<Longrightarrow> trace_loop g s = trace_loop g s'"
  by (subst trace_loop.simps) simp

text \<open>
  On \<open>loop_cfg\<close> the memo of block 0 (address 256) is \<open>{8}\<close> after the first iteration and
  \<open>{12}\<close> after the third.
\<close>

lemma traced_shrinks_example:
  "\<exists>s0 s1 s2 s3. trace_init loop_cfg 0 loop_ref = Inr s0 \<and>
     trace_step loop_cfg s0 = Inr s1 \<and> traced s1 256 = Some {8} \<and>
     trace_step loop_cfg s1 = Inr s2 \<and>
     trace_step loop_cfg s2 = Inr s3 \<and> traced s3 256 = Some {12}"
  by (simp add: ex_defs)

lemma trace_source_loop_cfg: "trace_source loop_cfg 0 loop_ref = None"
proof -
  let ?s0 = "\<lparr>stack = [(0, 0, {8}, {})], traced = Map.empty, sources = {}\<rparr>"
  let ?s1 = "\<lparr>stack = [(Suc 0, - 1, {8}, {})], traced = [256 \<mapsto> {8}], sources = {}\<rparr>"
  let ?s2 = "\<lparr>stack = [(2, - 1, {12}, {}), (0, - 1, {8, 12}, {})],
              traced = [256 \<mapsto> {8}, 512 \<mapsto> {12}], sources = {(512, 0)}\<rparr>"
  have i: "trace_init loop_cfg 0 loop_ref = Inr ?s0" by (simp add: ex_defs)
  have 1: "trace_step loop_cfg ?s0 = Inr ?s1" by (simp add: ex_defs)
  have 2: "trace_step loop_cfg ?s1 = Inr ?s2" by (simp add: ex_defs)
  obtain s3 where 3: "trace_step loop_cfg ?s2 = Inr s3" and
     s3: "stack s3 = [(2, - 1, {12}, {})]" "traced s3 256 = Some {12}" "traced s3 512 = Some {12}"
    by (simp add: ex_defs)
  obtain s4 where 4: "trace_step loop_cfg s3 = Inr s4" and "loop_inv s4"
    using s3 by (auto simp add: ex_defs loop_inv_def)
  have "trace_source loop_cfg 0 loop_ref = trace_loop loop_cfg ?s0" by (simp add: trace_source_def i)
  also have "\<dots> = trace_loop loop_cfg ?s1" by (rule trace_loop_step [OF _ 1]) simp
  also have "\<dots> = trace_loop loop_cfg ?s2" by (rule trace_loop_step [OF _ 2]) simp
  also have "\<dots> = trace_loop loop_cfg s3" by (rule trace_loop_step [OF _ 3]) simp
  also have "\<dots> = trace_loop loop_cfg s4" by (rule trace_loop_step [OF _ 4]) (simp add: s3)
  also have "\<dots> = None" by (rule trace_loop_diverges) fact
  finally show ?thesis .
qed

text \<open>
  C3 at the failing input. On the three-block CFG \<open>loop_cfg\<close> the trace of the memory read
  of block 0 never returns: after four iterations the stack alternates for ever between
  one entry for block 1 and one entry for block 2. On the way the memo of block 0 goes
  from \<open>{8}\<close> to \<open>{12}\<close>, which is not a superset.
\<close>

theorem tracer_memo_shrinks_and_diverges:
  "trace_source loop_cfg 0 loop_ref = None \<and>
   (\<exists>s0 s1 s2 s3. trace_init loop_cfg 0 loop_ref = Inr s0 \<and>
      trace_step loop_cfg s0 = Inr s1 \<and> traced s1 256 = Some {8} \<and>
      trace_step loop_cfg s1 = Inr s2 \<and>
      trace_step loop_cfg s2 = Inr s3 \<and> traced s3 256 = Some {12})"
  using trace_source_loop_cfg traced_shrinks_example by (rule conjI)


section \<open>Properties of the forward walk\<close>

lemmas walk_defs = construct_init_def construct_step_def process_run_def process_stmt_def
  block_write_def write_concrete_def lookup_frame_def find_frame_by_addr_def stack_ubound_def
  stack_lbound_def expand_successor_def push_def scanned_count_def MAX_BBL_ANALYZE_TIMES_def
  set_add_def add_edge_def sp0_def Let_def

subsection \<open>The scan counter\<close>

lemma same_queue_refl [simp]: "same_queue s s"
  by (simp add: same_queue_def)

lemma same_queue_trans: "same_queue s s' \<Longrightarrow> same_queue s' s'' \<Longrightarrow> same_queue s s''"
  by (simp add: same_queue_def)

lemma write_concrete_queue: "write_concrete g tpl a s = Inr s' \<Longrightarrow> same_queue s s'"
  by (auto simp: write_concrete_def same_queue_def Let_def split: sum.splits if_splits)

lemma block_write_queue: "block_write g old a i r s = Inr s' \<Longrightarrow> same_queue s s'"
  by (cases r) (auto simp: block_write_def same_queue_def dest: write_concrete_queue split: if_splits)

lemma block_reads_queue: "block_reads g old a i rs s = Inr s' \<Longrightarrow> same_queue s s'"
proof (induction rs arbitrary: s)
  case Nil
  then show ?case by simp
next
  case (Cons r rs)
  show ?case
  proof (cases r)
    case (SimMemRead x51 x52 x53 x54 x55 x56)
    with Cons.prems show ?thesis
      by (auto simp: same_queue_def split: if_splits sum.splits option.splits
          dest!: Cons.IH)
  qed (use Cons in auto)
qed

lemma process_stmt_queue: "process_stmt g old a i st s = Inr s' \<Longrightarrow> same_queue s s'"
  by (auto simp: process_stmt_def split: if_splits sum.splits
      dest!: block_write_queue block_reads_queue intro: same_queue_trans)

lemma process_stmts_queue: "process_stmts g old a i sts s = Inr s' \<Longrightarrow> same_queue s s'"
proof (induction sts arbitrary: s i)
  case Nil
  then show ?case by simp
next
  case (Cons st sts)
  from Cons.prems obtain s1 where
    1: "process_stmt g old a (int i) st (s\<lparr>var_i := Some (int i)\<rparr>) = Inr s1"
    and 2: "process_stmts g old a (Suc i) sts s1 = Inr s'"
    by (auto split: sum.splits)
  from process_stmt_queue [OF 1] Cons.IH [OF 2] show ?case
    by (simp add: same_queue_def)
qed

lemma process_refs_queue: "process_refs g old a rs s = Inr s' \<Longrightarrow> same_queue s s'"
proof (induction rs arbitrary: s)
  case Nil
  then show ?case by simp
next
  case (Cons r rs)
  show ?case
  proof (cases r)
    case (SimMemRead x51 x52 x53 x54 x55 x56)
    with Cons.prems show ?thesis
      by (auto simp: same_queue_def split: if_splits sum.splits option.splits
          dest!: Cons.IH)
  next
    case (SimMemWrite x61 x62 x63 x64 x65 x66)
    with Cons.prems show ?thesis
      by (auto simp: same_queue_def split: if_splits sum.splits option.splits
          dest!: Cons.IH write_concrete_queue)
  qed (use Cons in auto)
qed

lemma process_run_queue: "process_run g r new_run s = Inr s' \<Longrightarrow> same_queue s s'"
  by (cases new_run) (auto simp: process_run_def dest: process_stmts_queue process_refs_queue)

text \<open>What one successor does to the queue.\<close>

lemma expand_successor_queue:
  assumes "expand_successor g r new_run successor (T, s) = Inr (T', s')"
  shows "scanned_runs s' = scanned_runs s \<and>
         reanalyze_successors_flag s' = reanalyze_successors_flag s \<and>
         (run_stack s' = run_stack s \<or>
          (\<exists>w. run_stack s' = run_stack s @ [w] \<and> run w = successor \<and>
               successor \<notin> run ` set (run_stack s) \<and>
               scanned_count s successor < MAX_BBL_ANALYZE_TIMES))"
  using assms
  by (auto simp: expand_successor_def push_def Let_def scanned_count_def
      MAX_BBL_ANALYZE_TIMES_def
      split: if_splits option.splits list.splits)

lemma expand_successor_ok:
  assumes "expand_successor g r new_run successor (T, s) = Inr (T', s')" and "queue_ok s"
  shows "queue_ok s' \<and> scanned_runs s' = scanned_runs s"
proof -
  from expand_successor_queue [OF assms(1)]
  have sc: "scanned_runs s' = scanned_runs s"
    and q: "run_stack s' = run_stack s \<or>
          (\<exists>w. run_stack s' = run_stack s @ [w] \<and> run w = successor \<and>
               successor \<notin> run ` set (run_stack s) \<and>
               scanned_count s successor < MAX_BBL_ANALYZE_TIMES)"
    by simp_all
  have cnt: "scanned_count s' q = scanned_count s q" for q
    by (simp add: scanned_count_def sc)
  from q assms(2) show ?thesis
    by (auto simp: queue_ok_def cnt sc)
qed

lemma expand_successors_ok:
  "expand_successors g r new_run succs (T, s) = Inr (T', s') \<Longrightarrow> queue_ok s \<Longrightarrow>
     queue_ok s' \<and> scanned_runs s' = scanned_runs s"
proof (induction succs arbitrary: T s)
  case Nil
  then show ?case by simp
next
  case (Cons successor rest)
  from Cons.prems(1) obtain T1 s1 where
    1: "expand_successor g r new_run successor (T, s) = Inr (T1, s1)"
    and 2: "expand_successors g r new_run rest (T1, s1) = Inr (T', s')"
    by (auto split: sum.splits)
  from expand_successor_ok [OF 1 Cons.prems(2)]
  have "queue_ok s1" and "scanned_runs s1 = scanned_runs s" by simp_all
  with Cons.IH [OF 2] show ?case by simp
qed

lemma same_queue_ok: "same_queue s s' \<Longrightarrow> queue_ok s \<Longrightarrow> queue_ok s'"
  by (simp add: same_queue_def queue_ok_def scanned_count_def)

lemma scan_inv_top:
  assumes "scan_inv s" and "run_stack s \<noteq> []"
  shows "scanned_count s (run (last (run_stack s))) < MAX_BBL_ANALYZE_TIMES"
  using assms by (simp add: scan_inv_def)

lemma construct_step_inv:
  assumes inv: "scan_inv s" and ne: "run_stack s \<noteq> []"
    and step: "construct_step g s = Inr s'"
  shows "scan_inv s'"
proof -
  define w where "w = last (run_stack s)"
  define r where "r = run w"
  define s3 where "s3 = s\<lparr>run_stack := butlast (run_stack s), current_run_wrapper := w,
      scanned_runs := (scanned_runs s)(r \<mapsto> scanned_count s r + 1),
      reanalyze_successors_flag := reanalyze_successors w\<rparr>"
  from scan_inv_top [OF inv ne] have top: "scanned_count s r < MAX_BBL_ANALYZE_TIMES"
    by (simp add: r_def w_def)
  have split: "run_stack s = butlast (run_stack s) @ [w]"
    using ne by (simp add: w_def)
  from inv have d: "distinct (map run (run_stack s))" by (simp add: scan_inv_def)
  have notin: "r \<notin> run ` set (butlast (run_stack s))"
  proof -
    from d split have "distinct (map run (butlast (run_stack s) @ [w]))" by simp
    then show ?thesis by (auto simp: r_def)
  qed
  have cnt3: "scanned_count s3 q = (if q = r then scanned_count s r + 1 else scanned_count s q)" for q
    by (simp add: s3_def scanned_count_def)
  have ok3: "queue_ok s3"
    unfolding queue_ok_def
  proof (intro conjI ballI)
    fix v assume v: "v \<in> set (run_stack s3)"
    then have vb: "v \<in> set (butlast (run_stack s))" by (simp add: s3_def)
    with notin have "run v \<noteq> r" by auto
    moreover from vb have "v \<in> set (run_stack s)" by (rule in_set_butlastD)
    with inv have "scanned_count s (run v) < MAX_BBL_ANALYZE_TIMES" by (simp add: scan_inv_def)
    ultimately show "scanned_count s3 (run v) < MAX_BBL_ANALYZE_TIMES" by (simp add: cnt3)
  next
    from d show "distinct (map run (run_stack s3))"
      by (simp add: s3_def distinct_butlast map_butlast)
  qed
  from step top obtain s5 T s6 where
    p: "process_run g r (reanalyze g r (new_state w)) s3 = Inr s5"
    and e: "expand_successors g r (reanalyze g r (new_state w)) (get_successors g r) ({}, s5) = Inr (T, s6)"
    and s': "s' = s6"
    by (auto simp: construct_step_def Let_def w_def r_def s3_def scanned_count_def
        split: if_splits sum.splits option.splits)
  from same_queue_ok [OF process_run_queue [OF p] ok3] have ok5: "queue_ok s5" .
  from process_run_queue [OF p] have sc5: "scanned_runs s5 = scanned_runs s3"
    by (simp add: same_queue_def)
  from expand_successors_ok [OF e ok5] have ok6: "queue_ok s6" and sc6: "scanned_runs s6 = scanned_runs s5"
    by simp_all
  have cnt6: "scanned_count s6 q = scanned_count s3 q" for q
    by (simp add: scanned_count_def sc6 sc5)
  have "scanned_count s6 q \<le> MAX_BBL_ANALYZE_TIMES" for q
    using inv top by (auto simp: cnt6 cnt3 scan_inv_def)
  with ok6 show ?thesis
    by (simp add: scan_inv_def queue_ok_def s')
qed

lemma construct_init_inv: "scan_inv (construct_init g)"
  by (simp add: scan_inv_def construct_init_def Let_def scanned_count_def MAX_BBL_ANALYZE_TIMES_def)

lemma construct_iter_inv: "construct_iter g n = Inr s \<Longrightarrow> scan_inv s"
proof (induction n arbitrary: s)
  case 0
  then show ?case using construct_init_inv by auto
next
  case (Suc n)
  from Suc.prems obtain s0 where 0: "construct_iter g n = Inr s0"
    and 1: "if length (run_stack s0) > 0 then construct_step g s0 = Inr s else s = s0"
    by (auto split: sum.splits if_splits)
  from Suc.IH [OF 0] have inv0: "scan_inv s0" .
  show ?case
  proof (cases "run_stack s0 = []")
    case True
    with 1 inv0 show ?thesis by simp
  next
    case False
    with 1 have "construct_step g s0 = Inr s" by simp
    from construct_step_inv [OF inv0 False this] show ?thesis .
  qed
qed

lemma construct_step_skip:
  assumes "scanned_count t (run (last (run_stack t))) > MAX_BBL_ANALYZE_TIMES"
  shows "\<exists>t'. construct_step g t = Inr t' \<and> run_stack t' = butlast (run_stack t) \<and>
           (\<forall>q. scanned_count t' q = scanned_count t q)"
  using assms
  by (auto simp: construct_step_def Let_def scanned_count_def split: option.splits)

text \<open>The result of the loop is one of the states \<open>construct_iter\<close> lists.\<close>

lemma construct_loop_iter:
  assumes "construct_loop g s = Some res"
  shows "\<forall>n. construct_iter g n = Inr s \<longrightarrow> (\<exists>m. construct_iter g m = res)"
proof (rule construct_loop.raw_induct
    [where P = "\<lambda>g s res. \<forall>n. construct_iter g n = Inr s \<longrightarrow> (\<exists>m. construct_iter g m = res)",
     OF _ assms], goal_cases)
  case (1 f g s res)
  show ?case
  proof (intro allI impI)
    fix n assume n: "construct_iter g n = Inr s"
    show "\<exists>m. construct_iter g m = res"
    proof (cases "length (run_stack s) > 0")
      case False
      with 1(2) n show ?thesis by auto
    next
      case True
      show ?thesis
      proof (cases "construct_step g s")
        case (Inl e)
        with True 1(2) have "res = Inl e" by simp
        moreover from n True Inl have "construct_iter g (Suc n) = Inl e" by simp
        ultimately show ?thesis by blast
      next
        case (Inr s')
        with True 1(2) have "f g s' = Some res" by simp
        moreover from n True Inr have "construct_iter g (Suc n) = Inr s'" by simp
        ultimately show ?thesis using 1(1) by blast
      qed
    qed
  qed
qed

text \<open>
  C1. In every state the walk reaches (after any number of iterations of the loop of
  \<open>construct\<close>), every run's counter is at most \<open>MAX_BBL_ANALYZE_TIMES = 40\<close>; the run on
  top of the queue has a counter below the bound, so the increment of line 223 keeps it
  within the bound also in an iteration that raises later. In any state, a popped wrapper
  whose run's counter exceeds the bound is skipped: the step only removes it from the
  queue and leaves every counter as it was.
\<close>

theorem scanned_runs_bounded:
  assumes "construct_iter g n = Inr s"
  shows "scanned_count s r \<le> MAX_BBL_ANALYZE_TIMES \<and> MAX_BBL_ANALYZE_TIMES = 40 \<and>
         (run_stack s \<noteq> [] \<longrightarrow>
            scanned_count s (run (last (run_stack s))) + 1 \<le> MAX_BBL_ANALYZE_TIMES) \<and>
         (scanned_count t (run (last (run_stack t))) > MAX_BBL_ANALYZE_TIMES \<longrightarrow>
            (\<exists>t'. construct_step g t = Inr t' \<and> run_stack t' = butlast (run_stack t) \<and>
                  (\<forall>q. scanned_count t' q = scanned_count t q)))"
proof -
  from construct_iter_inv [OF assms] have inv: "scan_inv s" .
  then have "scanned_count s r \<le> MAX_BBL_ANALYZE_TIMES"
    by (simp add: scan_inv_def)
  moreover have "run_stack s \<noteq> [] \<longrightarrow>
      scanned_count s (run (last (run_stack s))) + 1 \<le> MAX_BBL_ANALYZE_TIMES"
    using scan_inv_top [OF inv] by auto
  moreover have "scanned_count t (run (last (run_stack t))) > MAX_BBL_ANALYZE_TIMES \<longrightarrow>
            (\<exists>t'. construct_step g t = Inr t' \<and> run_stack t' = butlast (run_stack t) \<and>
                  (\<forall>q. scanned_count t' q = scanned_count t q))"
    using construct_step_skip by blast
  ultimately show ?thesis
    by (simp add: MAX_BBL_ANALYZE_TIMES_def)
qed

theorem scanned_runs_bounded_witness:
  "\<exists>s. construct_iter summary_cfg (Suc (Suc 0)) = Inr s \<and>
       scanned_count s 1 = 1 \<and> scanned_count s 1 \<le> MAX_BBL_ANALYZE_TIMES \<and>
       scanned_count frozen_state (run (last (run_stack frozen_state))) = 41 \<and>
       (\<exists>t'. construct_step summary_cfg frozen_state = Inr t' \<and> run_stack t' = [])"
proof -
  obtain s where s: "construct_iter summary_cfg (Suc (Suc 0)) = Inr s"
    and c: "scanned_count s 1 = 1"
    by (simp add: walk_defs summary_cfg_def)
  have f: "scanned_count frozen_state (run (last (run_stack frozen_state))) = 41"
    by (simp add: frozen_state_def walk_defs summary_cfg_def)
  from scanned_runs_bounded [OF s, of 1 frozen_state] f
  have "scanned_count s 1 \<le> MAX_BBL_ANALYZE_TIMES"
    and "\<exists>t'. construct_step summary_cfg frozen_state = Inr t' \<and>
           run_stack t' = butlast (run_stack frozen_state)"
    by auto
  moreover have "butlast (run_stack frozen_state) = []"
    by (simp add: frozen_state_def walk_defs summary_cfg_def)
  ultimately show ?thesis using s c f by auto
qed

subsection \<open>Call stacks during the walk\<close>

lemma write_concrete_frames:
  "write_concrete g tpl a s = Inr s' \<Longrightarrow>
     length (call_stack (current_run_wrapper s')) = length (call_stack (current_run_wrapper s))"
  by (auto simp: write_concrete_def Let_def split: sum.splits if_splits)

lemma block_write_frames:
  "block_write g old a i r s = Inr s' \<Longrightarrow>
     length (call_stack (current_run_wrapper s')) = length (call_stack (current_run_wrapper s))"
  by (cases r) (auto simp: block_write_def dest: write_concrete_frames split: if_splits)

lemma block_reads_frames:
  "block_reads g old a i rs s = Inr s' \<Longrightarrow>
     current_run_wrapper s' = current_run_wrapper s"
proof (induction rs arbitrary: s)
  case Nil
  then show ?case by simp
next
  case (Cons r rs)
  show ?case
  proof (cases r)
    case (SimMemRead x51 x52 x53 x54 x55 x56)
    with Cons.prems show ?thesis
      by (auto split: if_splits sum.splits option.splits dest!: Cons.IH)
  qed (use Cons in auto)
qed

lemma process_stmt_frames:
  "process_stmt g old a i st s = Inr s' \<Longrightarrow>
     length (call_stack (current_run_wrapper s')) = length (call_stack (current_run_wrapper s))"
  by (auto simp: process_stmt_def split: if_splits sum.splits
      dest!: block_write_frames block_reads_frames)

lemma process_stmts_frames:
  "process_stmts g old a i sts s = Inr s' \<Longrightarrow>
     length (call_stack (current_run_wrapper s')) = length (call_stack (current_run_wrapper s))"
proof (induction sts arbitrary: s i)
  case Nil
  then show ?case by simp
next
  case (Cons st sts)
  from Cons.prems obtain s1 where
    1: "process_stmt g old a (int i) st (s\<lparr>var_i := Some (int i)\<rparr>) = Inr s1"
    and 2: "process_stmts g old a (Suc i) sts s1 = Inr s'"
    by (auto split: sum.splits)
  from process_stmt_frames [OF 1] Cons.IH [OF 2] show ?case by simp
qed

lemma process_refs_frames:
  "process_refs g old a rs s = Inr s' \<Longrightarrow>
     length (call_stack (current_run_wrapper s')) = length (call_stack (current_run_wrapper s))"
proof (induction rs arbitrary: s)
  case Nil
  then show ?case by simp
next
  case (Cons r rs)
  show ?case
  proof (cases r)
    case (SimMemRead x51 x52 x53 x54 x55 x56)
    with Cons.prems show ?thesis
      by (auto split: if_splits sum.splits option.splits dest!: Cons.IH)
  next
    case (SimMemWrite x61 x62 x63 x64 x65 x66)
    with Cons.prems show ?thesis
      by (auto split: if_splits sum.splits option.splits
          dest!: Cons.IH write_concrete_frames)
  qed (use Cons in auto)
qed

lemma process_run_frames:
  "process_run g r new_run s = Inr s' \<Longrightarrow>
     length (call_stack (current_run_wrapper s')) = length (call_stack (current_run_wrapper s))"
  by (cases new_run) (auto simp: process_run_def dest: process_stmts_frames process_refs_frames)

lemma expand_successor_cases:
  assumes "expand_successor g r new_run successor (T, s) = Inr (T', s')"
  shows "s' = s \<or>
         (\<exists>st cs s1. s' = push successor st cs s1 \<and>
            (s1 = s \<or> (\<exists>ws. s1 = s\<lparr>warnings := ws\<rparr>)) \<and>
            (cs = call_stack (current_run_wrapper s) \<or>
             (\<exists>fr. cs = call_stack (current_run_wrapper s) @ [fr]) \<or>
             (cs = butlast (call_stack (current_run_wrapper s)) \<and>
              length (call_stack (current_run_wrapper s)) > 1)))"
  using assms
  unfolding expand_successor_def Let_def
  by (simp split: if_splits option.splits list.splits prod.splits) blast+

lemma expand_successor_frames:
  assumes "expand_successor g r new_run successor (T, s) = Inr (T', s')"
    and "frames_ok s" and "call_stack (current_run_wrapper s) \<noteq> []"
  shows "frames_ok s' \<and> current_run_wrapper s' = current_run_wrapper s"
proof -
  let ?cs = "call_stack (current_run_wrapper s)"
  from expand_successor_cases [OF assms(1)]
  consider "s' = s"
    | st cs s1 where "s' = push successor st cs s1"
        "s1 = s \<or> (\<exists>ws. s1 = s\<lparr>warnings := ws\<rparr>)"
        "cs = ?cs \<or> (\<exists>fr. cs = ?cs @ [fr]) \<or> (cs = butlast ?cs \<and> length ?cs > 1)"
    by blast
  then show ?thesis
  proof cases
    case 1
    with assms(2) show ?thesis by simp
  next
    case 2
    from 2(3) assms(3) have cs: "cs \<noteq> []"
      by (cases ?cs rule: rev_cases) auto
    from 2(2) have q: "run_stack s1 = run_stack s"
      and c: "current_run_wrapper s1 = current_run_wrapper s"
      by auto
    from 2(1) q c cs assms(2) show ?thesis
      by (simp add: push_def frames_ok_def)
  qed
qed

lemma expand_successors_frames:
  "expand_successors g r new_run succs (T, s) = Inr (T', s') \<Longrightarrow> frames_ok s \<Longrightarrow>
   call_stack (current_run_wrapper s) \<noteq> [] \<Longrightarrow> frames_ok s'"
proof (induction succs arbitrary: T s)
  case Nil
  then show ?case by simp
next
  case (Cons successor rest)
  from Cons.prems(1) obtain T1 s1 where
    1: "expand_successor g r new_run successor (T, s) = Inr (T1, s1)"
    and 2: "expand_successors g r new_run rest (T1, s1) = Inr (T', s')"
    by (auto split: sum.splits)
  from expand_successor_frames [OF 1 Cons.prems(2,3)]
  have "frames_ok s1" and "current_run_wrapper s1 = current_run_wrapper s" by simp_all
  with Cons.IH [OF 2] Cons.prems(3) show ?case by simp
qed

text \<open>
  Every wrapper the walk queues has a non-empty call stack, so the references of every
  run are processed on a non-empty call stack.
\<close>

lemma construct_step_frames:
  assumes ok: "frames_ok s" and ne: "run_stack s \<noteq> []"
    and step: "construct_step g s = Inr s'"
  shows "frames_ok s'"
proof -
  define w where "w = last (run_stack s)"
  from ne have win: "w \<in> set (run_stack s)" by (simp add: w_def)
  with ok have wne: "call_stack w \<noteq> []" by (simp add: frames_ok_def)
  have okb: "\<forall>v \<in> set (butlast (run_stack s)). call_stack v \<noteq> []"
    using ok by (auto simp: frames_ok_def dest: in_set_butlastD)
  show ?thesis
  proof (cases "scanned_count s (run w) > MAX_BBL_ANALYZE_TIMES")
    case True
    with step okb show ?thesis
      by (auto simp: construct_step_def Let_def w_def scanned_count_def frames_ok_def
          split: option.splits if_splits)
  next
    case False
    define s4 where "s4 = s\<lparr>run_stack := butlast (run_stack s), current_run_wrapper := w,
      scanned_runs := (scanned_runs s)(run w \<mapsto> scanned_count s (run w) + 1),
      reanalyze_successors_flag := reanalyze_successors w\<rparr>"
    from step False obtain s5 T s6 where
      p: "process_run g (run w) (reanalyze g (run w) (new_state w)) s4 = Inr s5"
      and e: "expand_successors g (run w) (reanalyze g (run w) (new_state w))
                (get_successors g (run w)) ({}, s5) = Inr (T, s6)"
      and s': "s' = s6"
      by (auto simp: construct_step_def Let_def w_def s4_def scanned_count_def
          split: if_splits sum.splits option.splits)
    from process_run_frames [OF p] wne
    have c5: "call_stack (current_run_wrapper s5) \<noteq> []"
      by (auto simp: s4_def)
    have "run_stack s5 = run_stack s4" using process_run_queue [OF p]
      by (simp add: same_queue_def)
    with okb have ok5: "frames_ok s5" by (simp add: frames_ok_def s4_def)
    from expand_successors_frames [OF e ok5 c5] show ?thesis by (simp add: s')
  qed
qed

lemma construct_iter_frames: "construct_iter g n = Inr s \<Longrightarrow> frames_ok s"
proof (induction n arbitrary: s)
  case 0
  then show ?case by (auto simp: frames_ok_def construct_init_def Let_def)
next
  case (Suc n)
  from Suc.prems obtain s0 where 0: "construct_iter g n = Inr s0"
    and 1: "if length (run_stack s0) > 0 then construct_step g s0 = Inr s else s = s0"
    by (auto split: sum.splits if_splits)
  from Suc.IH [OF 0] have ok0: "frames_ok s0" .
  show ?case
  proof (cases "run_stack s0 = []")
    case True
    with 1 ok0 show ?thesis by simp
  next
    case False
    with 1 have "construct_step g s0 = Inr s" by simp
    from construct_step_frames [OF ok0 False this] show ?thesis .
  qed
qed

subsection \<open>Summary runs\<close>

text \<open>
  C2 at the failing input. In \<open>summary_cfg\<close> the summary procedure at \<open>0x2000\<close> is scanned
  after a block of three statements, so \<open>i\<close> is 2 when line 308 builds the tuple: the
  entry of \<open>addr_to_ref\<close> for the procedure's write is \<open>(0x2000, 2)\<close>, not \<open>(0x2000, -1)\<close>.
  The procedure's read is recorded under statement \<open>-1\<close>.
\<close>

theorem summary_write_uses_leftover_i:
  "\<exists>s. construct_iter summary_cfg (Suc (Suc 0)) = Inr s \<and>
       addr_to_ref (call_stack (current_run_wrapper s) ! 0) 24576 = Some (8192, 2) \<and>
       ddg s 8192 (- 1) = {(8192, 2)}"
  by (simp add: walk_defs summary_cfg_def)

subsection \<open>Successor expansion\<close>

text \<open>
  When no exit matches the successor and the primary exit is neither a call nor empty,
  the successor is queued with \<open>new_state = None\<close> and a warning is logged.
\<close>

lemma unmatched_exit_recoverable:
  assumes "scanned_runs s successor = None"
    and "successor \<notin> run ` set (run_stack s)"
    and "run_addr (node g successor) \<notin> T"
    and "run_addr (node g r) \<noteq> 1083205340"
    and "filter (\<lambda>ex. concretize ex = run_addr (node g successor)) (exits new_run) = []"
    and "exits new_run = ex0 # exs"
    and "jumpkind ex0 \<noteq> ''Ijk_Call''"
  shows "\<exists>T' s'. expand_successor g r new_run successor (T, s) = Inr (T', s') \<and>
           (\<exists>w. run_stack s' = run_stack s @ [w] \<and> run w = successor \<and> new_state w = None) \<and>
           CannotFindTarget r (run_addr (node g successor)) \<in> set (warnings s')"
  using assms
  by (auto simp: expand_successor_def push_def Let_def)

text \<open>
  C4 at the failing input. In \<open>call_cfg\<close> the only exit of the entry block is a call to
  \<open>0x3000\<close> and its CFG successor is at \<open>0x2000\<close>: no exit matches, \<open>new_state\<close> is \<open>None\<close>,
  and line 373 raises on \<open>new_state.sp_value()\<close>. The build aborts.
\<close>

theorem unmatched_exit_call_aborts:
  "construct_iter call_cfg (Suc 0) = Inl AttributeError \<and>
   construct call_cfg = Some (Inl AttributeError)"
  by (simp add: construct_def construct_loop.simps walk_defs call_cfg_def)

subsection \<open>Reads of a basic block\<close>

lemma scan_reversed_bound: "scan_reversed frs a = Some k \<Longrightarrow> k < length frs"
  by (induction frs) (auto split: option.splits if_splits)

lemma find_frame_by_addr_total:
  "stk \<noteq> [] \<Longrightarrow> \<exists>k < length stk. find_frame_by_addr lb ub stk a = Inr k"
  by (auto simp: find_frame_by_addr_def dest: scan_reversed_bound split: option.splits)

lemma scan_reversed_cong:
  "map initial_sp frs = map initial_sp frs' \<Longrightarrow> scan_reversed frs a = scan_reversed frs' a"
proof (induction frs arbitrary: frs')
  case Nil
  then show ?case by simp
next
  case (Cons fr frs)
  then obtain fr' rest where f: "frs' = fr' # rest" by (cases frs') auto
  with Cons.prems have "initial_sp fr = initial_sp fr'" "map initial_sp frs = map initial_sp rest"
    by simp_all
  moreover from this have "length frs = length rest" by (metis length_map)
  ultimately show ?case using Cons.IH [of rest] by (auto simp: f split: option.splits)
qed

lemma find_frame_by_addr_cong:
  "map initial_sp stk = map initial_sp stk' \<Longrightarrow>
     find_frame_by_addr lb ub stk a = find_frame_by_addr lb ub stk' a"
proof -
  assume m: "map initial_sp stk = map initial_sp stk'"
  then have "map initial_sp (rev stk) = map initial_sp (rev stk')" by (metis rev_map)
  from scan_reversed_cong [OF this] have "scan_reversed (rev stk) a = scan_reversed (rev stk') a" .
  moreover from m have "length stk = length stk'" by (metis length_map)
  ultimately show ?thesis by (simp add: find_frame_by_addr_def)
qed

lemma lookup_frame_ops [simp]:
  "lookup_frame g (s\<lparr>symbolic_mem_ops := x\<rparr>) a = lookup_frame g s a"
  by (simp add: lookup_frame_def)

lemma read_hit_ops [simp]: "read_hit g (s\<lparr>symbolic_mem_ops := x\<rparr>) r = read_hit g s r"
  by (cases r) (simp_all add: read_hit_def split: sum.splits)

lemma lookup_frame_total:
  "call_stack (current_run_wrapper s) \<noteq> [] \<Longrightarrow>
     \<exists>k < length (call_stack (current_run_wrapper s)). lookup_frame g s a = Inr k"
  unfolding lookup_frame_def by (rule find_frame_by_addr_total)

lemma block_reads_first_hit:
  assumes "call_stack (current_run_wrapper s) \<noteq> []"
    and "\<forall>r \<in> set pre. read_hit g s r = None"
    and "read_hit g s r = Some tpl"
  shows "\<exists>s'. block_reads g old a i (pre @ r # post) s = Inr s' \<and>
           ddg s' = add_edge (ddg s) a i tpl \<and>
           block_reads g old a i (pre @ r # post) s = block_reads g old a i (pre @ [r]) s"
  using assms
proof (induction pre arbitrary: s)
  case Nil
  then show ?case
    by (cases r) (auto simp: read_hit_def split: if_splits sum.splits)
next
  case (Cons p pre)
  from Cons.prems(2) have p: "read_hit g s p = None" and rest: "\<forall>r \<in> set pre. read_hit g s r = None"
    by simp_all
  show ?case
  proof (cases p)
    case (SimMemRead x1 ad x3 x4 x5 x6)
    show ?thesis
    proof (cases "is_symbolic ad")
      case True
      let ?s1 = "s\<lparr>symbolic_mem_ops := set_add (old, p) (symbolic_mem_ops s)\<rparr>"
      have "\<exists>s'. block_reads g old a i (pre @ r # post) ?s1 = Inr s' \<and>
           ddg s' = add_edge (ddg ?s1) a i tpl \<and>
           block_reads g old a i (pre @ r # post) ?s1 = block_reads g old a i (pre @ [r]) ?s1"
        using Cons.prems rest by (intro Cons.IH) simp_all
      with True SimMemRead show ?thesis by simp
    next
      case False
      from lookup_frame_total [OF Cons.prems(1)] obtain k where
        k: "lookup_frame g s (any ad) = Inr k" by blast
      with p SimMemRead False
      have miss: "addr_to_ref (call_stack (current_run_wrapper s) ! k) (any ad) = None"
        by (simp add: read_hit_def)
      from Cons.IH [OF Cons.prems(1) rest Cons.prems(3)] SimMemRead False k miss
      show ?thesis by simp
    qed
  qed (use Cons.IH [OF Cons.prems(1) rest Cons.prems(3)] in simp_all)
qed

lemma write_then_read:
  assumes "call_stack (current_run_wrapper s) \<noteq> []"
  shows "\<exists>s'. process_stmts g old a 0
              [Stmt [SimMemWrite i0 (SymExpr False m) ard atd drd dtd],
               Stmt [SimMemRead i1 (SymExpr False m) ard' atd' drd' dtd']] s = Inr s' \<and>
            ddg s' = add_edge (ddg s) a 1 (a, 0)"
proof -
  let ?stk = "call_stack (current_run_wrapper s)"
  from find_frame_by_addr_total [OF assms] obtain k where kl: "k < length ?stk"
    and k: "find_frame_by_addr (stack_lbound g) (stack_ubound g) ?stk m = Inr k"
    by blast
  have upd: "find_frame_by_addr (stack_lbound g) (stack_ubound g) (?stk[k := fr']) m = Inr k"
    if "initial_sp fr' = initial_sp (?stk ! k)" for fr'
  proof -
    from that kl have "map initial_sp (?stk[k := fr']) = map initial_sp ?stk"
      by (simp add: map_update list_update_same_conv)
    from find_frame_by_addr_cong [OF this] k show ?thesis by simp
  qed
  show ?thesis
    using k kl upd
    by (simp add: process_stmt_def block_write_def write_concrete_def lookup_frame_def Let_def)
qed

text \<open>
  C8. While a basic-block statement is processed with a non-empty call stack: if \<open>r\<close> is
  the first reference of the statement that is a memory read with a concrete address for
  which the frame found holds a write \<open>tpl\<close>, then the scan succeeds, adds exactly the
  edge \<open>(run_addr, i) \<leftarrow> tpl\<close> to the DDG, and does not look at the references after
  \<open>r\<close> (the result is that of the list cut after \<open>r\<close>). Hence a block that writes a concrete
  address in statement 0 and reads it in statement 1 adds exactly the edge
  \<open>(run_addr, 1) \<leftarrow> (run_addr, 0)\<close>.
\<close>

theorem first_resolved_read_ends_scan:
  assumes "call_stack (current_run_wrapper s) \<noteq> []"
  shows "((\<forall>p \<in> set pre. read_hit g s p = None) \<and> read_hit g s r = Some tpl \<longrightarrow>
            (\<exists>s'. block_reads g old a i (pre @ r # post) s = Inr s' \<and>
                  ddg s' = add_edge (ddg s) a i tpl \<and>
                  block_reads g old a i (pre @ r # post) s =
                    block_reads g old a i (pre @ [r]) s)) \<and>
         (\<exists>s'. process_stmts g old a 0
                  [Stmt [SimMemWrite i0 (SymExpr False m) ard atd drd dtd],
                   Stmt [SimMemRead i1 (SymExpr False m) ard' atd' drd' dtd']] s = Inr s' \<and>
               ddg s' = add_edge (ddg s) a 1 (a, 0))"
proof (intro conjI impI)
  assume "(\<forall>p \<in> set pre. read_hit g s p = None) \<and> read_hit g s r = Some tpl"
  then have "\<forall>p \<in> set pre. read_hit g s p = None" and "read_hit g s r = Some tpl"
    by simp_all
  then show "\<exists>s'. block_reads g old a i (pre @ r # post) s = Inr s' \<and>
                  ddg s' = add_edge (ddg s) a i tpl \<and>
                  block_reads g old a i (pre @ r # post) s =
                    block_reads g old a i (pre @ [r]) s"
    by (rule block_reads_first_hit [OF assms])
next
  show "\<exists>s'. process_stmts g old a 0
                  [Stmt [SimMemWrite i0 (SymExpr False m) ard atd drd dtd],
                   Stmt [SimMemRead i1 (SymExpr False m) ard' atd' drd' dtd']] s = Inr s' \<and>
               ddg s' = add_edge (ddg s) a 1 (a, 0)"
    by (rule write_then_read [OF assms])
qed

theorem first_resolved_read_ends_scan_witness:
  "call_stack (current_run_wrapper hit_state) \<noteq> [] \<and>
   read_hit summary_cfg hit_state proc_ref = None \<and>
   read_hit summary_cfg hit_state (SimMemRead 0 (SymExpr False 24576) [] [] [] [])
     = Some (4096, 0) \<and>
   (\<exists>s'. block_reads summary_cfg 0 4096 1
            ([proc_ref] @ SimMemRead 0 (SymExpr False 24576) [] [] [] [] # [proc_ref]) hit_state
            = Inr s' \<and>
          ddg s' 4096 1 = {(4096, 0)} \<and> symbolic_mem_ops s' = [(0, proc_ref)])"
proof -
  let ?r = "SimMemRead 0 (SymExpr False 24576) [] [] [] []"
  have ne: "call_stack (current_run_wrapper hit_state) \<noteq> []"
    by (simp add: hit_state_def)
  have pre: "\<forall>p \<in> set [proc_ref]. read_hit summary_cfg hit_state p = None"
    by (simp add: read_hit_def proc_ref_def)
  have hit: "read_hit summary_cfg hit_state ?r = Some (4096, 0)"
    by (simp add: read_hit_def hit_state_def walk_defs summary_cfg_def)
  from first_resolved_read_ends_scan [OF ne, of "[proc_ref]" summary_cfg ?r "(4096, 0)"] pre hit
  obtain s' where
    "block_reads summary_cfg 0 4096 1 ([proc_ref] @ ?r # [proc_ref]) hit_state = Inr s'"
    and "ddg s' = add_edge (ddg hit_state) 4096 1 (4096, 0)"
    and "block_reads summary_cfg 0 4096 1 ([proc_ref] @ ?r # [proc_ref]) hit_state =
         block_reads summary_cfg 0 4096 1 ([proc_ref] @ [?r]) hit_state"
    by blast
  moreover have "ddg hit_state = (\<lambda>a i. {})"
    by (simp add: hit_state_def walk_defs)
  moreover have "\<exists>s''. block_reads summary_cfg 0 4096 1 ([proc_ref] @ [?r]) hit_state = Inr s'' \<and>
      symbolic_mem_ops s'' = [(0, proc_ref)]"
    by (simp add: proc_ref_def hit_state_def walk_defs summary_cfg_def)
  ultimately show ?thesis
    using ne pre hit by (auto simp: add_edge_def)
qed

section \<open>Properties of the symbolic reconciliation\<close>

lemma add_producer_mono:
  "tpl \<in> fst d \<Longrightarrow> tpl \<in> fst (add_producer d srcs v)"
  "x \<in> set (snd d tpl) \<Longrightarrow> x \<in> set (snd (add_producer d srcs v) tpl)"
  by (simp_all add: add_producer_def)

lemma add_producer_new:
  "tpl \<in> srcs \<Longrightarrow> tpl \<in> fst (add_producer d srcs v) \<and> v \<in> set (snd (add_producer d srcs v) tpl)"
  by (simp add: add_producer_def)

lemma collect_producers_mono:
  "collect_producers g ops (R, W) = Some (Inr (R', W')) \<Longrightarrow>
     (tpl \<in> fst R \<longrightarrow> tpl \<in> fst R') \<and> set (snd R tpl) \<subseteq> set (snd R' tpl) \<and>
     (tpl \<in> fst W \<longrightarrow> tpl \<in> fst W') \<and> set (snd W tpl) \<subseteq> set (snd W' tpl)"
proof (induction ops arbitrary: R W)
  case Nil
  then show ?case by simp
next
  case (Cons op ops)
  obtain irsb r where op: "op = (irsb, r)" by (cases op)
  from Cons.prems op obtain srcs where t: "trace_source g irsb r = Some (Inr srcs)"
    by (auto split: option.splits sum.splits)
  show ?case
  proof (cases "is_mem_read r")
    case True
    with Cons.prems op t
    have "collect_producers g ops (add_producer R srcs (run_addr (node g irsb), r), W) = Some (Inr (R', W'))"
      by simp
    from Cons.IH [OF this] show ?thesis
      by (auto simp: add_producer_def split: if_splits)
  next
    case nr: False
    show ?thesis
    proof (cases "is_mem_write r")
      case True
      with nr Cons.prems op t
      have "collect_producers g ops (R, add_producer W srcs (run_addr (node g irsb), r)) = Some (Inr (R', W'))"
        by simp
      from Cons.IH [OF this] show ?thesis
        by (auto simp: add_producer_def split: if_splits)
    next
      case False
      with nr Cons.prems op t
      have "collect_producers g ops (R, W) = Some (Inr (R', W'))" by simp
      from Cons.IH [OF this] show ?thesis .
    qed
  qed
qed

lemma is_read_not_write: "is_mem_write r \<Longrightarrow> \<not> is_mem_read r"
  by (cases r) (simp_all add: is_mem_write_def is_mem_read_def)

lemma collect_producers_read:
  "collect_producers g ops (R, W) = Some (Inr (R', W')) \<Longrightarrow>
   (irsb, r) \<in> set ops \<Longrightarrow> is_mem_read r \<Longrightarrow>
   trace_source g irsb r = Some (Inr srcs) \<Longrightarrow> tpl \<in> srcs \<Longrightarrow>
     tpl \<in> fst R' \<and> (run_addr (node g irsb), r) \<in> set (snd R' tpl)"
proof (induction ops arbitrary: R W)
  case Nil
  then show ?case by simp
next
  case (Cons op ops)
  obtain irsb0 r0 where op: "op = (irsb0, r0)" by (cases op)
  from Cons.prems(1) op obtain srcs0 where t: "trace_source g irsb0 r0 = Some (Inr srcs0)"
    by (auto split: option.splits sum.splits)
  define R1 where "R1 = (if is_mem_read r0
      then add_producer R srcs0 (run_addr (node g irsb0), r0) else R)"
  define W1 where "W1 = (if \<not> is_mem_read r0 \<and> is_mem_write r0
      then add_producer W srcs0 (run_addr (node g irsb0), r0) else W)"
  from Cons.prems(1) op t have rec: "collect_producers g ops (R1, W1) = Some (Inr (R', W'))"
    by (auto simp: R1_def W1_def split: if_splits)
  show ?case
  proof (cases "(irsb, r) = op")
    case True
    with op have e: "irsb0 = irsb" "r0 = r" by simp_all
    with t Cons.prems(4) have "srcs0 = srcs" by simp
    with e Cons.prems(3,5)
    have "tpl \<in> fst R1 \<and> (run_addr (node g irsb), r) \<in> set (snd R1 tpl)"
      by (simp add: R1_def add_producer_new)
    with collect_producers_mono [OF rec, of tpl] show ?thesis by auto
  next
    case False
    with Cons.prems(2) have "(irsb, r) \<in> set ops" by auto
    from Cons.IH [OF rec this Cons.prems(3,4,5)] show ?thesis .
  qed
qed

lemma collect_producers_write:
  "collect_producers g ops (R, W) = Some (Inr (R', W')) \<Longrightarrow>
   (irsb, r) \<in> set ops \<Longrightarrow> is_mem_write r \<Longrightarrow>
   trace_source g irsb r = Some (Inr srcs) \<Longrightarrow> tpl \<in> srcs \<Longrightarrow>
     tpl \<in> fst W' \<and> (run_addr (node g irsb), r) \<in> set (snd W' tpl)"
proof (induction ops arbitrary: R W)
  case Nil
  then show ?case by simp
next
  case (Cons op ops)
  obtain irsb0 r0 where op: "op = (irsb0, r0)" by (cases op)
  from Cons.prems(1) op obtain srcs0 where t: "trace_source g irsb0 r0 = Some (Inr srcs0)"
    by (auto split: option.splits sum.splits)
  define R1 where "R1 = (if is_mem_read r0
      then add_producer R srcs0 (run_addr (node g irsb0), r0) else R)"
  define W1 where "W1 = (if \<not> is_mem_read r0 \<and> is_mem_write r0
      then add_producer W srcs0 (run_addr (node g irsb0), r0) else W)"
  from Cons.prems(1) op t have rec: "collect_producers g ops (R1, W1) = Some (Inr (R', W'))"
    by (auto simp: R1_def W1_def split: if_splits)
  show ?case
  proof (cases "(irsb, r) = op")
    case True
    with op have e: "irsb0 = irsb" "r0 = r" by simp_all
    with t Cons.prems(4) have "srcs0 = srcs" by simp
    with e Cons.prems(3,5) is_read_not_write [OF Cons.prems(3)]
    have "tpl \<in> fst W1 \<and> (run_addr (node g irsb), r) \<in> set (snd W1 tpl)"
      by (simp add: W1_def add_producer_new)
    with collect_producers_mono [OF rec, of tpl] show ?thesis by auto
  next
    case False
    with Cons.prems(2) have "(irsb, r) \<in> set ops" by auto
    from Cons.IH [OF rec this Cons.prems(3,4,5)] show ?thesis .
  qed
qed

text \<open>
  C9. When the reconciliation pass returns, for every symbolic memory read and every
  symbolic memory write of the collected operations whose traced sources share a source,
  the DDG holds the edge from \<open>(read_run.addr, read_ref.stmt_idx)\<close> to
  \<open>(write_run.addr, write_ref.stmt_idx)\<close>.
\<close>

theorem shared_source_edge:
  assumes "solve_symbolic_mem_operations g s = Some (Inr s')"
    and "(read_run, read_ref) \<in> set (symbolic_mem_ops s)" and "is_mem_read read_ref"
    and "(write_run, write_ref) \<in> set (symbolic_mem_ops s)" and "is_mem_write write_ref"
    and "trace_source g read_run read_ref = Some (Inr rs)"
    and "trace_source g write_run write_ref = Some (Inr ws)"
    and "src \<in> rs" and "src \<in> ws"
  shows "(run_addr (node g write_run), stmt_idx write_ref)
           \<in> ddg s' (run_addr (node g read_run)) (stmt_idx read_ref)"
proof -
  from assms(1) obtain R W where
    c: "collect_producers g (symbolic_mem_ops s) (({}, \<lambda>tpl. []), ({}, \<lambda>tpl. [])) = Some (Inr (R, W))"
    and s': "s' = s\<lparr>ddg := link_producers R W (ddg s)\<rparr>"
    by (auto simp: solve_symbolic_mem_operations_def split: option.splits sum.splits)
  from collect_producers_read [OF c assms(2,3,6,8)]
  have r: "src \<in> fst R" "(run_addr (node g read_run), read_ref) \<in> set (snd R src)" by simp_all
  from collect_producers_write [OF c assms(4,5,7,9)]
  have w: "src \<in> fst W" "(run_addr (node g write_run), write_ref) \<in> set (snd W src)" by simp_all
  have "(run_addr (node g write_run), stmt_idx write_ref)
          \<in> link_producers R W (ddg s) (run_addr (node g read_run)) (stmt_idx read_ref)"
    unfolding link_producers_def
    apply (rule UnI2)
    apply (rule UN_I [of src])
    using r w apply simp
    apply (rule UN_I [of "(run_addr (node g read_run), read_ref)"])
    using r apply simp
    using w apply (simp add: image_iff)
    apply (rule bexI [of _ "(run_addr (node g write_run), write_ref)"])
    apply simp_all
    done
  then show ?thesis by (simp add: s')
qed

theorem shared_source_edge_witness:
  "\<exists>s s'. construct_loop share_cfg (construct_init share_cfg) = Some (Inr s) \<and>
      symbolic_mem_ops s = [(0, share_write), (0, share_read)] \<and>
      trace_source share_cfg 0 share_read = Some (Inr {(4096, 0)}) \<and>
      trace_source share_cfg 0 share_write = Some (Inr {(4096, 0)}) \<and>
      solve_symbolic_mem_operations share_cfg s = Some (Inr s') \<and>
      (4096, 1) \<in> ddg s' 4096 2"
proof -
  obtain s where s: "construct_loop share_cfg (construct_init share_cfg) = Some (Inr s)"
    and ops: "symbolic_mem_ops s = [(0, share_write), (0, share_read)]"
    by (simp add: construct_loop.simps walk_defs block_reads.simps share_cfg_def
        share_write_def share_read_def)
  have tr: "trace_source share_cfg 0 share_read = Some (Inr {(4096, 0)})"
    by (simp add: trace_source_def trace_loop.simps ex_defs share_cfg_def share_read_def
        share_write_def eval_nat_numeral)
  have tw: "trace_source share_cfg 0 share_write = Some (Inr {(4096, 0)})"
    by (simp add: trace_source_def trace_loop.simps ex_defs share_cfg_def share_read_def
        share_write_def eval_nat_numeral)
  have r: "(0, share_read) \<in> set (symbolic_mem_ops s)" and ir: "is_mem_read share_read"
    and w: "(0, share_write) \<in> set (symbolic_mem_ops s)" and iw: "is_mem_write share_write"
    and nr: "\<not> is_mem_read share_write"
    by (simp_all add: ops is_mem_read_def is_mem_write_def share_read_def share_write_def)
  obtain s' where s': "solve_symbolic_mem_operations share_cfg s = Some (Inr s')"
    by (simp add: solve_symbolic_mem_operations_def ops tr tw ir iw nr)
  have m: "(4096, 0) \<in> {(4096 :: int, 0 :: int)}" by simp
  from shared_source_edge [OF s' r ir w iw tr tw m m]
  have "(4096, 1) \<in> ddg s' 4096 2"
    by (simp add: share_cfg_def share_read_def share_write_def)
  with s ops tr tw s' show ?thesis by blast
qed

text \<open>
  The edges the pass adds are exactly those of the pairs with a shared source.
\<close>

lemma traced_by_Nil [simp]: "traced_by g [] kind tpl = {}"
  by (simp add: traced_by_def)

lemma traced_by_Cons:
  "traced_by g ((irsb, r) # ops) kind tpl =
     (if kind r \<and> (\<exists>srcs. trace_source g irsb r = Some (Inr srcs) \<and> tpl \<in> srcs)
      then {(run_addr (node g irsb), r)} else {}) \<union> traced_by g ops kind tpl"
  by (auto simp: traced_by_def)

lemma collect_producers_exact:
  "collect_producers g ops (R, W) = Some (Inr (R', W')) \<Longrightarrow>
     (tpl \<in> fst R' \<longleftrightarrow> tpl \<in> fst R \<or> traced_by g ops is_mem_read tpl \<noteq> {}) \<and>
     set (snd R' tpl) = set (snd R tpl) \<union> traced_by g ops is_mem_read tpl \<and>
     (tpl \<in> fst W' \<longleftrightarrow> tpl \<in> fst W \<or> traced_by g ops is_mem_write tpl \<noteq> {}) \<and>
     set (snd W' tpl) = set (snd W tpl) \<union> traced_by g ops is_mem_write tpl"
proof (induction ops arbitrary: R W)
  case Nil
  then show ?case by simp
next
  case (Cons op ops)
  obtain irsb r where op: "op = (irsb, r)" by (cases op)
  from Cons.prems op obtain srcs where t: "trace_source g irsb r = Some (Inr srcs)"
    by (auto split: option.splits sum.splits)
  define R1 where "R1 = (if is_mem_read r
      then add_producer R srcs (run_addr (node g irsb), r) else R)"
  define W1 where "W1 = (if \<not> is_mem_read r \<and> is_mem_write r
      then add_producer W srcs (run_addr (node g irsb), r) else W)"
  from Cons.prems op t have rec: "collect_producers g ops (R1, W1) = Some (Inr (R', W'))"
    by (auto simp: R1_def W1_def split: if_splits)
  have w: "(\<not> is_mem_read r \<and> is_mem_write r) = is_mem_write r"
    by (cases r) (simp_all add: is_mem_read_def is_mem_write_def)
  have R1: "(tpl \<in> fst R1 \<longleftrightarrow> tpl \<in> fst R \<or> (is_mem_read r \<and> tpl \<in> srcs))"
    "set (snd R1 tpl) = set (snd R tpl) \<union>
       (if is_mem_read r \<and> tpl \<in> srcs then {(run_addr (node g irsb), r)} else {})"
    by (auto simp: R1_def add_producer_def)
  have W1: "(tpl \<in> fst W1 \<longleftrightarrow> tpl \<in> fst W \<or> (is_mem_write r \<and> tpl \<in> srcs))"
    "set (snd W1 tpl) = set (snd W tpl) \<union>
       (if is_mem_write r \<and> tpl \<in> srcs then {(run_addr (node g irsb), r)} else {})"
    by (auto simp: W1_def w add_producer_def)
  from Cons.IH [OF rec] R1 W1 show ?case
    unfolding op traced_by_Cons t by auto
qed

lemma link_producers_iff:
  "e \<in> link_producers R W d a i \<longleftrightarrow>
     e \<in> d a i \<or>
     (\<exists>tpl rd wr. tpl \<in> fst W \<and> tpl \<in> fst R \<and> rd \<in> set (snd R tpl) \<and> fst rd = a \<and>
        stmt_idx (snd rd) = i \<and> wr \<in> set (snd W tpl) \<and> e = (fst wr, stmt_idx (snd wr)))"
  (is "?L \<longleftrightarrow> _ \<or> ?X")
proof
  assume ?L
  then consider "e \<in> d a i"
    | tpl rd where "tpl \<in> fst W \<inter> fst R" "rd \<in> set (snd R tpl)"
        "e \<in> (if fst rd = a \<and> stmt_idx (snd rd) = i
              then (\<lambda>wr. (fst wr, stmt_idx (snd wr))) ` set (snd W tpl) else {})"
    unfolding link_producers_def by blast
  then show "e \<in> d a i \<or> ?X"
  proof cases
    case 1
    then show ?thesis ..
  next
    case 2
    from 2(3) have c: "fst rd = a \<and> stmt_idx (snd rd) = i"
      by (simp split: if_splits)
    with 2(3) obtain wr where "wr \<in> set (snd W tpl)" "e = (fst wr, stmt_idx (snd wr))"
      by auto
    with 2(1,2) c have ?X by blast
    then show ?thesis ..
  qed
next
  assume "e \<in> d a i \<or> ?X"
  then show ?L
  proof
    assume "e \<in> d a i"
    then show ?L unfolding link_producers_def by (rule UnI1)
  next
    assume ?X
    then obtain tpl rd wr where t: "tpl \<in> fst W \<inter> fst R" and rd: "rd \<in> set (snd R tpl)"
      and c: "fst rd = a \<and> stmt_idx (snd rd) = i"
      and wr: "wr \<in> set (snd W tpl)" and e: "e = (fst wr, stmt_idx (snd wr))"
      by blast
    from wr e c have "e \<in> (if fst rd = a \<and> stmt_idx (snd rd) = i
              then (\<lambda>wr. (fst wr, stmt_idx (snd wr))) ` set (snd W tpl) else {})"
      by simp
    with t rd show ?L unfolding link_producers_def by blast
  qed
qed


lemma solve_edges_exact:
  assumes "solve_symbolic_mem_operations g s = Some (Inr s')"
  shows "ddg s' a i = ddg s a i \<union>
           {(run_addr (node g write_run), stmt_idx write_ref) |
              write_run write_ref read_run read_ref rs ws src.
              (read_run, read_ref) \<in> set (symbolic_mem_ops s) \<and> is_mem_read read_ref \<and>
              (write_run, write_ref) \<in> set (symbolic_mem_ops s) \<and> is_mem_write write_ref \<and>
              trace_source g read_run read_ref = Some (Inr rs) \<and>
              trace_source g write_run write_ref = Some (Inr ws) \<and>
              src \<in> rs \<and> src \<in> ws \<and>
              run_addr (node g read_run) = a \<and> stmt_idx read_ref = i}"
    (is "_ = _ \<union> ?E")
proof -
  let ?ops = "symbolic_mem_ops s"
  from assms obtain R W where
    c: "collect_producers g ?ops (({}, \<lambda>tpl. []), ({}, \<lambda>tpl. [])) = Some (Inr (R, W))"
    and s': "s' = s\<lparr>ddg := link_producers R W (ddg s)\<rparr>"
    by (auto simp: solve_symbolic_mem_operations_def split: option.splits sum.splits)
  have R: "tpl \<in> fst R \<longleftrightarrow> traced_by g ?ops is_mem_read tpl \<noteq> {}"
    "set (snd R tpl) = traced_by g ?ops is_mem_read tpl"
    and W: "tpl \<in> fst W \<longleftrightarrow> traced_by g ?ops is_mem_write tpl \<noteq> {}"
    "set (snd W tpl) = traced_by g ?ops is_mem_write tpl" for tpl
    using collect_producers_exact [OF c, of tpl] by simp_all
  have iff: "e \<in> link_producers R W (ddg s) a i \<longleftrightarrow> e \<in> ddg s a i \<or> e \<in> ?E" for e
  proof -
    have "(\<exists>tpl rd wr. tpl \<in> fst W \<and> tpl \<in> fst R \<and> rd \<in> set (snd R tpl) \<and> fst rd = a \<and>
        stmt_idx (snd rd) = i \<and> wr \<in> set (snd W tpl) \<and> e = (fst wr, stmt_idx (snd wr)))
       \<longleftrightarrow> e \<in> ?E" (is "?L \<longleftrightarrow> _")
    proof
      assume ?L
      then obtain tpl rd wr where rd0: "rd \<in> set (snd R tpl)"
        and a: "fst rd = a" "stmt_idx (snd rd) = i"
        and wr0: "wr \<in> set (snd W tpl)"
        and e: "e = (fst wr, stmt_idx (snd wr))"
        by blast
      from rd0 have rd: "rd \<in> traced_by g ?ops is_mem_read tpl" by (simp add: R(2))
      from wr0 have wr: "wr \<in> traced_by g ?ops is_mem_write tpl" by (simp add: W(2))
      from rd obtain read_run read_ref rs where
        "rd = (run_addr (node g read_run), read_ref)" "(read_run, read_ref) \<in> set ?ops"
        "is_mem_read read_ref" "trace_source g read_run read_ref = Some (Inr rs)" "tpl \<in> rs"
        by (auto simp: traced_by_def)
      moreover from wr obtain write_run write_ref ws where
        "wr = (run_addr (node g write_run), write_ref)" "(write_run, write_ref) \<in> set ?ops"
        "is_mem_write write_ref" "trace_source g write_run write_ref = Some (Inr ws)"
        "tpl \<in> ws"
        by (auto simp: traced_by_def)
      ultimately show "e \<in> ?E" using a e by (cases tpl) (simp, blast)
    next
      assume "e \<in> ?E"
      then obtain write_run write_ref read_run read_ref rs ws src where
        e: "e = (run_addr (node g write_run), stmt_idx write_ref)"
        and r: "(read_run, read_ref) \<in> set ?ops" "is_mem_read read_ref"
          "trace_source g read_run read_ref = Some (Inr rs)" "src \<in> rs"
        and w: "(write_run, write_ref) \<in> set ?ops" "is_mem_write write_ref"
          "trace_source g write_run write_ref = Some (Inr ws)" "src \<in> ws"
        and a: "run_addr (node g read_run) = a" "stmt_idx read_ref = i"
        by auto
      from r have rd: "(run_addr (node g read_run), read_ref) \<in> traced_by g ?ops is_mem_read src"
        by (auto simp: traced_by_def)
      from w have wr: "(run_addr (node g write_run), write_ref) \<in> traced_by g ?ops is_mem_write src"
        by (auto simp: traced_by_def)
      from rd wr have "src \<in> fst W" "src \<in> fst R"
        "(run_addr (node g read_run), read_ref) \<in> set (snd R src)"
        "(run_addr (node g write_run), write_ref) \<in> set (snd W src)"
        by (auto simp: R W)
      with a e show ?L
        by (intro exI [of _ src] exI [of _ "(run_addr (node g read_run), read_ref)"]
            exI [of _ "(run_addr (node g write_run), write_ref)"]) simp
    qed
    then show ?thesis by (simp add: link_producers_iff)
  qed
  have "link_producers R W (ddg s) a i = ddg s a i \<union> ?E"
  proof (rule set_eqI)
    fix e
    show "e \<in> link_producers R W (ddg s) a i \<longleftrightarrow> e \<in> ddg s a i \<union> ?E"
      unfolding Un_iff by (rule iff)
  qed
  moreover have "ddg s' = link_producers R W (ddg s)" by (simp add: s')
  ultimately show ?thesis by (simp only:)
qed


section \<open>A summary run with a symbolic address\<close>

text \<open>
  C10. The error branch of \<open>_trace_source\<close> is reachable from \<open>construct\<close>: on \<open>proc_cfg\<close>
  the walk ends with the pair (summary run, memory read) in the set of symbolic
  operations, the trace of that pair raises \<open>AttributeError\<close> (a summary procedure has no
  \<open>statements\<close>), and so does \<open>construct\<close>.
\<close>

theorem summary_symbolic_ref_raises:
  "(\<exists>s. construct_loop proc_cfg (construct_init proc_cfg) = Some (Inr s) \<and>
        symbolic_mem_ops s = [(1, proc_ref)]) \<and>
   trace_source proc_cfg 1 proc_ref = Some (Inl AttributeError) \<and>
   construct proc_cfg = Some (Inl AttributeError)"
  by (simp add: construct_def construct_loop.simps walk_defs proc_cfg_def proc_ref_def
      solve_symbolic_mem_operations_def trace_source_def trace_init_def)

end
